theory Spec2Isabelle
  imports Main "HOL-Library.Word" "HOL-Library.Multiset" "HOL-Library.Product_Lexorder"
begin

section \<open>Data model\<close>

text \<open>
  Row ids are Go \<open>uint32\<close>, sort keys and forward values \<open>uint64\<close>. A roaring bitmap is a
  finite set of row ids; its iterator yields the ids in ascending order. The term fields
  (\<open>int64\<close>, \<open>*int64\<close>) are only printed and compared, never computed with, so they are
  integers here.
\<close>

type_synonym u32 = "32 word"
type_synonym u64 = "64 word"
type_synonym bitmap = "u32 set"

text \<open>
  What a Redis hash field holds: the bytes written by \<open>ToBytes\<close> or \<open>fmt.Sprint\<close> for a
  value (\<open>Enc\<close>), or bytes that the reader's parser rejects (\<open>Corrupt\<close>).
\<close>

datatype 'a stored = Enc 'a | Corrupt

datatype error =
    DecodeError      \<comment> \<open>parseBitmap: FromBuffer failed or did not consume the input\<close>
  | ParseUintError   \<comment> \<open>RedisFvStore.MGet: strconv.ParseUint failed\<close>
  | UnknownOp        \<comment> \<open>ConsumeClaim: op is none of r, c, u, d\<close>
  | Panic            \<comment> \<open>nil dereference or index out of range\<close>

text \<open>
  The Redis server, as far as the three stores use it. Each store has its own key prefix,
  so each owns one component; inside a component a hash or sorted set is found by the
  index key. The sorted-set members are the 16-digit zero-padded hexadecimal renderings
  made by \<open>u64ToHex\<close>; that rendering is injective and turns the numeric order into the
  lexicographic one, and \<open>hexToU64\<close> inverts it, so the members are kept as the numbers
  they render. The forward-value hash is keyed by the decimal rendering of the id, kept as
  the id. \<open>slog\<close> collects the messages logged at level Warn; the Debug message of
  \<open>List\<close> is not recorded.
\<close>

record redis =
  bm_hm :: "string \<Rightarrow> string \<rightharpoonup> bitmap stored"
  skbm_zs :: "string \<Rightarrow> u64 set"
  skbm_hm :: "string \<Rightarrow> u64 \<rightharpoonup> bitmap stored"
  fv_hm :: "string \<Rightarrow> u32 \<rightharpoonup> u64 stored"
  slog :: "string list"

definition empty_redis :: redis where
  "empty_redis = \<lparr> bm_hm = (\<lambda>_. Map.empty), skbm_zs = (\<lambda>_. {}), skbm_hm = (\<lambda>_. Map.empty),
                    fv_hm = (\<lambda>_. Map.empty), slog = [] \<rparr>"

text \<open>
  A Go function with result \<open>(T, error)\<close> that talks to Redis: it takes the server state and
  returns the error or the value together with the state it leaves behind. A failed call
  keeps the writes made before the failure. The connection itself never fails here.
\<close>

type_synonym 'a io = "redis \<Rightarrow> (error + 'a) \<times> redis"

definition ret :: "'a \<Rightarrow> 'a io" where
  "ret x s = (Inr x, s)"

definition throw :: "error \<Rightarrow> 'a io" where
  "throw e s = (Inl e, s)"

definition seq :: "'a io \<Rightarrow> ('a \<Rightarrow> 'b io) \<Rightarrow> 'b io" where
  "seq m f s = (case m s of (Inl e, s') \<Rightarrow> (Inl e, s') | (Inr x, s') \<Rightarrow> f x s')"

definition lift :: "error + 'a \<Rightarrow> 'a io" where
  "lift r s = (r, s)"

subsection \<open>Redis commands\<close>

definition bm_HGet :: "string \<Rightarrow> string \<Rightarrow> redis \<Rightarrow> bitmap stored option \<times> redis" where
  "bm_HGet hashKey field s = (bm_hm s hashKey field, s)"

definition bm_HSet :: "string \<Rightarrow> string \<Rightarrow> bitmap stored \<Rightarrow> unit io" where
  "bm_HSet hashKey field raw s =
     (Inr (), s\<lparr>bm_hm := (bm_hm s)(hashKey := (bm_hm s hashKey)(field \<mapsto> raw))\<rparr>)"

definition bm_HDel :: "string \<Rightarrow> string \<Rightarrow> unit io" where
  "bm_HDel hashKey field s =
     (Inr (), s\<lparr>bm_hm := (bm_hm s)(hashKey := (bm_hm s hashKey)(field := None))\<rparr>)"

text \<open>
  \<open>ZRANGE key lo hi BYLEX [REV] LIMIT 0 count\<close> with both bounds inclusive: the members
  between the bounds, ascending or (REV) descending, cut to \<open>count\<close> members. The client
  sends no LIMIT when the count is 0.
\<close>

definition skbm_ZRange :: "string \<Rightarrow> u64 \<Rightarrow> u64 \<Rightarrow> bool \<Rightarrow> nat \<Rightarrow> redis \<Rightarrow> u64 list \<times> redis" where
  "skbm_ZRange zsetKey lo hi rev_order cnt s =
     (let asc = sorted_list_of_set {k \<in> skbm_zs s zsetKey. lo \<le> k \<and> k \<le> hi};
          ms = (if rev_order then rev asc else asc)
      in (if cnt = 0 then ms else take cnt ms, s))"

definition skbm_HMGet :: "string \<Rightarrow> u64 list \<Rightarrow> redis \<Rightarrow> bitmap stored option list \<times> redis" where
  "skbm_HMGet hashKey flds s = (map (skbm_hm s hashKey) flds, s)"

definition skbm_ZRem :: "string \<Rightarrow> u64 list \<Rightarrow> unit io" where
  "skbm_ZRem zsetKey members s =
     (Inr (), s\<lparr>skbm_zs := (skbm_zs s)(zsetKey := skbm_zs s zsetKey - set members)\<rparr>)"

definition skbm_HDel :: "string \<Rightarrow> u64 list \<Rightarrow> unit io" where
  "skbm_HDel hashKey flds s =
     (Inr (), s\<lparr>skbm_hm := (skbm_hm s)(hashKey := foldl (\<lambda>h f. h(f := None)) (skbm_hm s hashKey) flds)\<rparr>)"

definition skbm_ZAdd :: "string \<Rightarrow> u64 list \<Rightarrow> unit io" where
  "skbm_ZAdd zsetKey members s =
     (Inr (), s\<lparr>skbm_zs := (skbm_zs s)(zsetKey := skbm_zs s zsetKey \<union> set members)\<rparr>)"

text \<open>\<open>HMSET key f1 v1 f2 v2 ...\<close> sets the fields from left to right: of two values for one
  field the later one stays.\<close>

definition skbm_HMSet :: "string \<Rightarrow> (u64 \<times> bitmap stored) list \<Rightarrow> unit io" where
  "skbm_HMSet hashKey pairs s =
     (Inr (), s\<lparr>skbm_hm := (skbm_hm s)(hashKey := foldl (\<lambda>h (f, v). h(f \<mapsto> v)) (skbm_hm s hashKey) pairs)\<rparr>)"

definition fv_HMGet :: "string \<Rightarrow> u32 list \<Rightarrow> redis \<Rightarrow> u64 stored option list \<times> redis" where
  "fv_HMGet hashKey flds s = (map (fv_hm s hashKey) flds, s)"

definition fv_HSet :: "string \<Rightarrow> u32 \<Rightarrow> u64 stored \<Rightarrow> unit io" where
  "fv_HSet hashKey field raw s =
     (Inr (), s\<lparr>fv_hm := (fv_hm s)(hashKey := (fv_hm s hashKey)(field \<mapsto> raw))\<rparr>)"

definition fv_HDel :: "string \<Rightarrow> u32 \<Rightarrow> unit io" where
  "fv_HDel hashKey field s =
     (Inr (), s\<lparr>fv_hm := (fv_hm s)(hashKey := (fv_hm s hashKey)(field := None))\<rparr>)"

section \<open>package store\<close>

record SortKeyBitmap =
  SortKey :: u64
  Bitmap :: bitmap

text \<open>\<open>parseBitmap\<close>: the empty string (also what a missing field reads as) is the empty
  bitmap.\<close>

definition parseBitmap :: "bitmap stored option \<Rightarrow> error + bitmap" where
  "parseBitmap sv = (case sv of None \<Rightarrow> Inr {} | Some (Enc b) \<Rightarrow> Inr b | Some Corrupt \<Rightarrow> Inl DecodeError)"

definition RedisBmStore_Get :: "string \<Rightarrow> string \<Rightarrow> bitmap io" where
  "RedisBmStore_Get indexKey valueKey s =
     (case bm_HGet indexKey valueKey s of (sv, s') \<Rightarrow> lift (parseBitmap sv) s')"

definition RedisBmStore_Set :: "string \<Rightarrow> string \<Rightarrow> bitmap \<Rightarrow> unit io" where
  "RedisBmStore_Set indexKey valueKey bm =
     (if card bm = 0 then bm_HDel indexKey valueKey
      else bm_HSet indexKey valueKey (Enc bm))"

text \<open>The loop of \<open>RedisSortKeyBitmapStore.Scan\<close> that decodes the values read for the keys;
  it returns at the first value that does not decode.\<close>

fun decode_skbms :: "u64 list \<Rightarrow> bitmap stored option list \<Rightarrow> error + SortKeyBitmap list" where
  "decode_skbms (key # keys) (sv # svs) =
     (case parseBitmap sv of
        Inl e \<Rightarrow> Inl e
      | Inr bm \<Rightarrow> (case decode_skbms keys svs of
                     Inl e \<Rightarrow> Inl e
                   | Inr rest \<Rightarrow> Inr (\<lparr>SortKey = key, Bitmap = bm\<rparr> # rest)))"
| "decode_skbms _ _ = Inr []"

definition RedisSortKeyBitmapStore_Scan ::
  "string \<Rightarrow> u64 \<Rightarrow> u64 \<Rightarrow> bool \<Rightarrow> nat \<Rightarrow> SortKeyBitmap list io" where
  "RedisSortKeyBitmapStore_Scan indexKey start stop reverse limit s =
     (case (if \<not> reverse then skbm_ZRange indexKey start stop reverse limit s
            else skbm_ZRange indexKey stop start reverse limit s) of
        (keys, s1) \<Rightarrow>
          if length keys = 0 then (Inr [], s1)
          else (case skbm_HMGet indexKey keys s1 of
                  (svs, s2) \<Rightarrow> lift (decode_skbms keys svs) s2))"

definition RedisSortKeyBitmapStore_MSet :: "string \<Rightarrow> SortKeyBitmap list \<Rightarrow> unit io" where
  "RedisSortKeyBitmapStore_MSet indexKey skbms =
     (if length skbms = 0 then ret ()
      else
        let delKeys = map SortKey (filter (\<lambda>skbm. card (Bitmap skbm) = 0) skbms);
            setSkbms = filter (\<lambda>skbm. card (Bitmap skbm) \<noteq> 0) skbms
        in seq (if length delKeys > 0
                then seq (skbm_ZRem indexKey delKeys) (\<lambda>_. skbm_HDel indexKey delKeys)
                else ret ())
             (\<lambda>_. if length setSkbms > 0
                   then seq (skbm_ZAdd indexKey (map SortKey setSkbms))
                          (\<lambda>_. skbm_HMSet indexKey (map (\<lambda>skbm. (SortKey skbm, Enc (Bitmap skbm))) setSkbms))
                   else ret ()))"

text \<open>The loop of \<open>RedisFvStore.MGet\<close>: a missing field reads as 0, a field that is not a
  decimal number ends the call.\<close>

fun parse_fvs :: "u64 stored option list \<Rightarrow> error + u64 list" where
  "parse_fvs [] = Inr []"
| "parse_fvs (sv # svs) =
     (case sv of
        Some Corrupt \<Rightarrow> Inl ParseUintError
      | _ \<Rightarrow> (case parse_fvs svs of
                Inl e \<Rightarrow> Inl e
              | Inr rest \<Rightarrow> Inr ((case sv of Some (Enc v) \<Rightarrow> v | _ \<Rightarrow> 0) # rest)))"

definition RedisFvStore_MGet :: "string \<Rightarrow> u32 list \<Rightarrow> u64 list io" where
  "RedisFvStore_MGet indexKey ids s =
     (case fv_HMGet indexKey ids s of (svs, s') \<Rightarrow> lift (parse_fvs svs) s')"

definition RedisFvStore_Set :: "string \<Rightarrow> u32 \<Rightarrow> u64 \<Rightarrow> unit io" where
  "RedisFvStore_Set indexKey ident v = fv_HSet indexKey ident (Enc v)"

definition RedisFvStore_Remove :: "string \<Rightarrow> u32 \<Rightarrow> unit io" where
  "RedisFvStore_Remove indexKey ident = fv_HDel indexKey ident"

section \<open>package index\<close>

record TermIndex =
  TableName :: string
  FieldName :: string

definition GetIndexKey :: "TermIndex \<Rightarrow> string" where
  "GetIndexKey i = ''term:'' @ TableName i @ '':'' @ FieldName i"

text \<open>\<open>fmt.Sprint\<close> of an integer: its decimal digits, after a minus sign when negative.\<close>

fun Sprint_nat :: "nat \<Rightarrow> string" where
  "Sprint_nat n =
     (if n < 10 then [''0123456789'' ! n]
      else Sprint_nat (n div 10) @ [''0123456789'' ! (n mod 10)])"

definition Sprint_int :: "int \<Rightarrow> string" where
  "Sprint_int i = (if i < 0 then CHR ''-'' # Sprint_nat (nat (- i)) else Sprint_nat (nat i))"

text \<open>The type set \<open>Term\<close> is \<open>int64 | *int64\<close>; these are the only values \<open>MakeValueKey\<close>
  is called with, so its panicking default branch has no value to take it.\<close>

datatype Term = Int64 int | PtrInt64 "int option"

fun MakeValueKey :: "Term \<Rightarrow> string" where
  "MakeValueKey (Int64 v) = Sprint_int v"
| "MakeValueKey (PtrInt64 None) = ''null''"
| "MakeValueKey (PtrInt64 (Some v)) = Sprint_int v"

text \<open>Go's \<open>==\<close> on two terms. On \<open>*int64\<close> it compares the pointers, not what they point to:
  the two orders of a message are decoded into separate allocations, so their pointers are
  equal only when both are nil.\<close>

fun Term_eq :: "Term \<Rightarrow> Term \<Rightarrow> bool" where
  "Term_eq (Int64 a) (Int64 b) = (a = b)"
| "Term_eq (PtrInt64 a) (PtrInt64 b) = (a = None \<and> b = None)"
| "Term_eq _ _ = False"

record SparseIndex =
  SparseTableName :: string
  SparseFieldName :: string

definition MakeIndexKey :: "SparseIndex \<Rightarrow> string" where
  "MakeIndexKey i = ''sparse:'' @ SparseTableName i @ '':'' @ SparseFieldName i"

text \<open>\<open>sort.Slice\<close> is the Go library's: it takes the comparison and returns the slice
  rearranged, and its documentation promises a sorted rearrangement and no stability. The
  functions that call it take it as a parameter.\<close>

type_synonym 'a slice_sort = "('a \<Rightarrow> 'a \<Rightarrow> bool) \<Rightarrow> 'a list \<Rightarrow> 'a list"

definition sort_Slice_ok :: "'a slice_sort \<Rightarrow> ('a \<Rightarrow> 'a \<Rightarrow> bool) \<Rightarrow> bool" where
  "sort_Slice_ok srt lt \<longleftrightarrow>
     (\<forall>xs. mset (srt lt xs) = mset xs \<and> sorted_wrt (\<lambda>a b. \<not> lt b a) (srt lt xs))"

text \<open>The version of the sparse index file that the writer is compiled against:
  \<open>QuerySortedIds\<close> compares the scores only.\<close>

record SortedId =
  SortedId_Id :: u32
  SortedId_Score :: u64

definition SortedId_less :: "SortedId \<Rightarrow> SortedId \<Rightarrow> bool" where
  "SortedId_less a b = (SortedId_Score a < SortedId_Score b)"

definition QuerySortedIds :: "SortedId slice_sort \<Rightarrow> string \<Rightarrow> bitmap \<Rightarrow> SortedId list io" where
  "QuerySortedIds srt fieldKey bm =
     (let ids = sorted_list_of_set bm
      in seq (RedisFvStore_MGet fieldKey ids)
           (\<lambda>fvs. ret (srt SortedId_less
                          (map (\<lambda>(i, fv). \<lparr>SortedId_Id = i, SortedId_Score = fv\<rparr>) (zip ids fvs)))))"

text \<open>The version that the reader is compiled against: \<open>QuerySortIds\<close> orders ids of equal
  sort key by id.\<close>

record SortId =
  SortId_Id :: u32
  SortId_SortKey :: u64

definition SortId_less :: "SortId \<Rightarrow> SortId \<Rightarrow> bool" where
  "SortId_less a b =
     (if SortId_SortKey a = SortId_SortKey b then SortId_Id a < SortId_Id b
      else SortId_SortKey a < SortId_SortKey b)"

definition QuerySortIds :: "SortId slice_sort \<Rightarrow> string \<Rightarrow> bitmap \<Rightarrow> SortId list io" where
  "QuerySortIds srt fieldKey bm =
     (let ids = sorted_list_of_set bm
      in seq (RedisFvStore_MGet fieldKey ids)
           (\<lambda>fvs. ret (srt SortId_less
                          (map (\<lambda>(i, fv). \<lparr>SortId_Id = i, SortId_SortKey = fv\<rparr>) (zip ids fvs)))))"

section \<open>package sync\<close>

record Order =
  ID :: u32
  OrderStatus :: int
  ProductID :: int
  ProviderID :: "int option"
  CreateTime :: u64

record DataChangedMessage =
  Op :: string
  Before :: "Order option"
  After :: "Order option"

record TermIndexWriter =
  TermIndexWriter_Index :: TermIndex

record SparseU64IndexWriter =
  SparseU64IndexWriter_Index :: SparseIndex
  SplitThreshold :: int

record saramaConsumer =
  AllIndexWriter :: TermIndexWriter
  OrderStatusIndexWriter :: TermIndexWriter
  ProductIdIndexWriter :: TermIndexWriter
  ProviderIdIndexWriter :: TermIndexWriter
  CreateTimeIndexWriter :: SparseU64IndexWriter

definition NewTermIndexWriter :: "string \<Rightarrow> string \<Rightarrow> TermIndexWriter" where
  "NewTermIndexWriter tableName fieldName =
     \<lparr>TermIndexWriter_Index = \<lparr>TableName = tableName, FieldName = fieldName\<rparr>\<rparr>"

text \<open>The consumer that \<open>Consumer.Start\<close> builds.\<close>

definition Start_consumer :: saramaConsumer where
  "Start_consumer =
     \<lparr>AllIndexWriter = NewTermIndexWriter ''orders'' ''__all'',
      OrderStatusIndexWriter = NewTermIndexWriter ''orders'' ''order_status'',
      ProductIdIndexWriter = NewTermIndexWriter ''orders'' ''product_id'',
      ProviderIdIndexWriter = NewTermIndexWriter ''orders'' ''provider_id'',
      CreateTimeIndexWriter =
        \<lparr>SparseU64IndexWriter_Index = \<lparr>SparseTableName = ''orders'', SparseFieldName = ''create_time''\<rparr>,
         SplitThreshold = 1000\<rparr>\<rparr>"

definition TermIndexWriter_Add :: "TermIndexWriter \<Rightarrow> Term \<Rightarrow> u32 \<Rightarrow> unit io" where
  "TermIndexWriter_Add w fv ident =
     (let indexKey = GetIndexKey (TermIndexWriter_Index w);
          key = MakeValueKey fv
      in seq (RedisBmStore_Get indexKey key)
           (\<lambda>bm. RedisBmStore_Set indexKey key (insert ident bm)))"

definition TermIndexWriter_Remove :: "TermIndexWriter \<Rightarrow> Term \<Rightarrow> u32 \<Rightarrow> unit io" where
  "TermIndexWriter_Remove w fv ident =
     (let indexKey = GetIndexKey (TermIndexWriter_Index w);
          key = MakeValueKey fv
      in seq (RedisBmStore_Get indexKey key)
           (\<lambda>bm. RedisBmStore_Set indexKey key (bm - {ident})))"

definition TermIndexWriter_Move :: "TermIndexWriter \<Rightarrow> Term \<Rightarrow> Term \<Rightarrow> u32 \<Rightarrow> unit io" where
  "TermIndexWriter_Move w old new ident =
     (if Term_eq old new then ret ()
      else seq (TermIndexWriter_Remove w old ident)
             (\<lambda>_. TermIndexWriter_Add w new ident))"

definition getFloorSortedBm :: "string \<Rightarrow> u64 \<Rightarrow> SortKeyBitmap option io" where
  "getFloorSortedBm fieldKey fv =
     seq (RedisSortKeyBitmapStore_Scan fieldKey fv 0 True 1)
       (\<lambda>sortedBms. ret (case sortedBms of [] \<Rightarrow> None | b # _ \<Rightarrow> Some b))"

text \<open>The split branch of \<open>Add\<close>, after the ids of the floor bucket have been sorted: the two
  halves, keyed by the score of their first id, the one whose key is at most \<open>fv\<close> first.
  Indexing an empty slice panics.\<close>

definition split_sorted :: "SortedId list \<Rightarrow> u64 \<Rightarrow> SortKeyBitmap list io" where
  "split_sorted sortedIds fv =
     (if sortedIds = [] then throw Panic
      else
        let mid = length sortedIds div 2;
            bm1 = set (map SortedId_Id (take mid sortedIds));
            bm2 = set (map SortedId_Id (drop mid sortedIds));
            b1 = \<lparr>SortKey = SortedId_Score (sortedIds ! 0), Bitmap = bm1\<rparr>;
            b2 = \<lparr>SortKey = SortedId_Score (sortedIds ! mid), Bitmap = bm2\<rparr>
        in ret (if SortKey b2 \<le> fv then [b2, b1] else [b1, b2]))"

text \<open>\<open>uint64(w.SplitThreshold)\<close> converts a Go \<open>int\<close>: a negative threshold wraps around.\<close>

definition SparseU64IndexWriter_Add ::
  "SortedId slice_sort \<Rightarrow> SparseU64IndexWriter \<Rightarrow> u64 \<Rightarrow> u32 \<Rightarrow> unit io" where
  "SparseU64IndexWriter_Add srt w fv ident =
     (let fieldKey = MakeIndexKey (SparseU64IndexWriter_Index w)
      in seq (getFloorSortedBm fieldKey fv)
           (\<lambda>floorSortedBm.
              seq (case floorSortedBm of
                     None \<Rightarrow> ret [\<lparr>SortKey = fv, Bitmap = {}\<rparr>]
                   | Some fl \<Rightarrow>
                       if int (card (Bitmap fl)) < SplitThreshold w mod 2 ^ 64 then ret [fl]
                       else seq (QuerySortedIds srt fieldKey (Bitmap fl))
                              (\<lambda>sortedIds. split_sorted sortedIds fv))
                (\<lambda>updateSortedBms.
                   case updateSortedBms of
                     [] \<Rightarrow> throw Panic
                   | b # bs \<Rightarrow>
                       seq (RedisFvStore_Set fieldKey ident fv)
                         (\<lambda>_. RedisSortKeyBitmapStore_MSet fieldKey
                                 (b\<lparr>Bitmap := insert ident (Bitmap b)\<rparr> # bs)))))"

definition slog_Warn :: "string \<Rightarrow> unit io" where
  "slog_Warn msg s = (Inr (), s\<lparr>slog := slog s @ [msg]\<rparr>)"

definition SparseU64IndexWriter_Remove :: "SparseU64IndexWriter \<Rightarrow> u64 \<Rightarrow> u32 \<Rightarrow> unit io" where
  "SparseU64IndexWriter_Remove w fv ident =
     (let fieldKey = MakeIndexKey (SparseU64IndexWriter_Index w)
      in seq (getFloorSortedBm fieldKey fv)
           (\<lambda>floorSortedBm.
              seq (case floorSortedBm of
                     Some fl \<Rightarrow>
                       RedisSortKeyBitmapStore_MSet fieldKey [fl\<lparr>Bitmap := Bitmap fl - {ident}\<rparr>]
                   | None \<Rightarrow> slog_Warn ''cannot find floor sorted bitmap'')
                (\<lambda>_. RedisFvStore_Remove fieldKey ident)))"

definition SparseU64IndexWriter_Move ::
  "SortedId slice_sort \<Rightarrow> SparseU64IndexWriter \<Rightarrow> u64 \<Rightarrow> u64 \<Rightarrow> u32 \<Rightarrow> unit io" where
  "SparseU64IndexWriter_Move srt w old new ident =
     (if old = new then ret ()
      else seq (SparseU64IndexWriter_Remove w old ident)
             (\<lambda>_. SparseU64IndexWriter_Add srt w new ident))"

definition onInsert :: "SortedId slice_sort \<Rightarrow> saramaConsumer \<Rightarrow> Order \<Rightarrow> unit io" where
  "onInsert srt consumer order =
     seq (TermIndexWriter_Add (AllIndexWriter consumer) (Int64 0) (ID order)) (\<lambda>_.
     seq (TermIndexWriter_Add (OrderStatusIndexWriter consumer) (Int64 (OrderStatus order)) (ID order)) (\<lambda>_.
     seq (TermIndexWriter_Add (ProductIdIndexWriter consumer) (Int64 (ProductID order)) (ID order)) (\<lambda>_.
     seq (TermIndexWriter_Add (ProviderIdIndexWriter consumer) (PtrInt64 (ProviderID order)) (ID order)) (\<lambda>_.
     SparseU64IndexWriter_Add srt (CreateTimeIndexWriter consumer) (CreateTime order) (ID order)))))"

definition onUpdate :: "SortedId slice_sort \<Rightarrow> saramaConsumer \<Rightarrow> Order \<Rightarrow> Order \<Rightarrow> unit io" where
  "onUpdate srt consumer old new =
     seq (TermIndexWriter_Move (OrderStatusIndexWriter consumer)
            (Int64 (OrderStatus old)) (Int64 (OrderStatus new)) (ID new)) (\<lambda>_.
     seq (TermIndexWriter_Move (ProductIdIndexWriter consumer)
            (Int64 (ProductID old)) (Int64 (ProductID new)) (ID new)) (\<lambda>_.
     seq (TermIndexWriter_Move (ProviderIdIndexWriter consumer)
            (PtrInt64 (ProviderID old)) (PtrInt64 (ProviderID new)) (ID new)) (\<lambda>_.
     SparseU64IndexWriter_Move srt (CreateTimeIndexWriter consumer)
       (CreateTime old) (CreateTime new) (ID new))))"

definition onDelete :: "saramaConsumer \<Rightarrow> Order \<Rightarrow> unit io" where
  "onDelete consumer order =
     seq (TermIndexWriter_Remove (AllIndexWriter consumer) (Int64 0) (ID order)) (\<lambda>_.
     seq (TermIndexWriter_Remove (OrderStatusIndexWriter consumer) (Int64 (OrderStatus order)) (ID order)) (\<lambda>_.
     seq (TermIndexWriter_Remove (ProductIdIndexWriter consumer) (Int64 (ProductID order)) (ID order)) (\<lambda>_.
     seq (TermIndexWriter_Remove (ProviderIdIndexWriter consumer) (PtrInt64 (ProviderID order)) (ID order)) (\<lambda>_.
     SparseU64IndexWriter_Remove (CreateTimeIndexWriter consumer) (CreateTime order) (ID order)))))"

text \<open>The body of the loop of \<open>ConsumeClaim\<close> for one decoded message. Dereferencing a nil
  \<open>Before\<close> or \<open>After\<close> panics.\<close>

definition consume_message :: "SortedId slice_sort \<Rightarrow> saramaConsumer \<Rightarrow> DataChangedMessage \<Rightarrow> unit io" where
  "consume_message srt consumer m =
     (if Op m = ''r'' \<or> Op m = ''c'' then
        (case After m of None \<Rightarrow> throw Panic | Some a \<Rightarrow> onInsert srt consumer a)
      else if Op m = ''u'' then
        (case Before m of
           None \<Rightarrow> throw Panic
         | Some b \<Rightarrow> (case After m of None \<Rightarrow> throw Panic | Some a \<Rightarrow> onUpdate srt consumer b a))
      else if Op m = ''d'' then
        (case Before m of None \<Rightarrow> throw Panic | Some b \<Rightarrow> onDelete consumer b)
      else throw UnknownOp)"

text \<open>\<open>ConsumeClaim\<close> on the messages of a claim, in order; it returns at the first error.\<close>

fun ConsumeClaim :: "SortedId slice_sort \<Rightarrow> saramaConsumer \<Rightarrow> DataChangedMessage list \<Rightarrow> unit io" where
  "ConsumeClaim srt consumer [] = ret ()"
| "ConsumeClaim srt consumer (m # ms) =
     seq (consume_message srt consumer m) (\<lambda>_. ConsumeClaim srt consumer ms)"

section \<open>package query\<close>

record TermIndexReader =
  TermIndexReader_Index :: TermIndex

record SparseU64IndexReader =
  SparseU64IndexReader_Index :: SparseIndex

record OrdersSearchService =
  AllIndexReader :: TermIndexReader
  OrderStatusIndexReader :: TermIndexReader
  ProductIdIndexReader :: TermIndexReader
  ProviderIdIndexReader :: TermIndexReader
  CreateTimeIndexReader :: SparseU64IndexReader

definition NewOrdersSearchService :: OrdersSearchService where
  "NewOrdersSearchService =
     \<lparr>AllIndexReader = \<lparr>TermIndexReader_Index = \<lparr>TableName = ''orders'', FieldName = ''__all''\<rparr>\<rparr>,
      OrderStatusIndexReader = \<lparr>TermIndexReader_Index = \<lparr>TableName = ''orders'', FieldName = ''order_status''\<rparr>\<rparr>,
      ProductIdIndexReader = \<lparr>TermIndexReader_Index = \<lparr>TableName = ''orders'', FieldName = ''product_id''\<rparr>\<rparr>,
      ProviderIdIndexReader = \<lparr>TermIndexReader_Index = \<lparr>TableName = ''orders'', FieldName = ''provider_id''\<rparr>\<rparr>,
      CreateTimeIndexReader =
        \<lparr>SparseU64IndexReader_Index = \<lparr>SparseTableName = ''orders'', SparseFieldName = ''create_time''\<rparr>\<rparr>\<rparr>"

text \<open>\<open>NullableValueFilterMode\<close> is an \<open>int\<close> with three named values.\<close>

definition FilterModeEq :: int where "FilterModeEq = 0"
definition FilterModeNull :: int where "FilterModeNull = 1"
definition FilterModeNotNull :: int where "FilterModeNotNull = 2"

record NullableValueFilter =
  Mode :: int
  Value :: int

record Request =
  OrderStatusEq :: "int option"
  ProductIDEq :: "int option"
  ProviderIDFilter :: "NullableValueFilter option"
  Limit :: "int option"

record Response =
  IDs :: "u32 list"
  Total :: nat

definition TermIndexReader_Get :: "TermIndexReader \<Rightarrow> Term \<Rightarrow> bitmap io" where
  "TermIndexReader_Get r fv =
     RedisBmStore_Get (GetIndexKey (TermIndexReader_Index r)) (MakeValueKey fv)"

text \<open>The inner loop of \<open>Scan\<close> over the buckets of one page. \<open>proc\<close> is the callback; \<open>c\<close>
  is what the callback's closure holds. The result says whether the scan goes on.\<close>

fun scan_page ::
  "SortId slice_sort \<Rightarrow> string \<Rightarrow> bitmap \<Rightarrow> bool \<Rightarrow> ('c \<Rightarrow> SortId list \<Rightarrow> bool \<times> 'c) \<Rightarrow>
   SortKeyBitmap list \<Rightarrow> 'c \<Rightarrow> redis \<Rightarrow> (error + bool \<times> 'c) \<times> redis" where
  "scan_page srt indexKey baseBm reverse proc [] c s = (Inr (True, c), s)"
| "scan_page srt indexKey baseBm reverse proc (sortedBm # rest) c s =
     (let bm = Bitmap sortedBm \<inter> baseBm
      in if card bm = 0 then scan_page srt indexKey baseBm reverse proc rest c s
         else (case QuerySortIds srt indexKey bm s of
                 (Inl e, s1) \<Rightarrow> (Inl e, s1)
               | (Inr sortedIds, s1) \<Rightarrow>
                   (case proc c (if reverse then rev sortedIds else sortedIds) of
                      (go, c1) \<Rightarrow>
                        if \<not> go then (Inr (False, c1), s1)
                        else scan_page srt indexKey baseBm reverse proc rest c1 s1)))"

text \<open>Where the next page starts: one past the last key of this page, unless that key is
  the end of the range.\<close>

definition next_start :: "bool \<Rightarrow> u64 \<Rightarrow> u64 \<Rightarrow> u64" where
  "next_start reverse stop lastKey =
     (if lastKey \<noteq> stop then (if \<not> reverse then lastKey + 1 else lastKey - 1) else lastKey)"

lemma decode_skbms_keys:
  "decode_skbms keys (map f keys) = Inr bms \<Longrightarrow> map SortKey bms = keys"
proof (induction keys arbitrary: bms)
  case Nil
  then show ?case by simp
next
  case (Cons k ks)
  then show ?case by (auto split: sum.splits)
qed

lemma Scan_keys:
  assumes "RedisSortKeyBitmapStore_Scan indexKey start stop reverse limit s = (Inr bms, s1)"
  shows "map SortKey bms =
           fst (skbm_ZRange indexKey (if reverse then stop else start) (if reverse then start else stop)
                  reverse limit s)"
proof -
  obtain keys where k: "skbm_ZRange indexKey (if reverse then stop else start) (if reverse then start else stop)
                  reverse limit s = (keys, s)"
    by (simp add: skbm_ZRange_def Let_def)
  show ?thesis
  proof (cases "keys = []")
    case True
    with assms k show ?thesis
      by (auto simp: RedisSortKeyBitmapStore_Scan_def split: if_splits)
  next
    case False
    with assms k show ?thesis
      by (auto simp: RedisSortKeyBitmapStore_Scan_def skbm_HMGet_def lift_def
          dest: decode_skbms_keys split: if_splits)
  qed
qed

lemma ZRange_range:
  "k \<in> set (fst (skbm_ZRange indexKey lo hi reverse limit s)) \<Longrightarrow> lo \<le> k \<and> k \<le> hi"
  by (auto simp: skbm_ZRange_def Let_def split: if_splits dest: in_set_takeD)

lemma Scan_keys_range:
  assumes "RedisSortKeyBitmapStore_Scan indexKey start stop reverse limit s = (Inr bms, s1)"
    and "b \<in> set bms"
  shows "(if reverse then stop \<le> SortKey b \<and> SortKey b \<le> start
          else start \<le> SortKey b \<and> SortKey b \<le> stop)"
proof -
  have "SortKey b \<in> set (map SortKey bms)" using assms(2) by simp
  then have "SortKey b \<in> set (fst (skbm_ZRange indexKey (if reverse then stop else start)
               (if reverse then start else stop) reverse limit s))"
    using Scan_keys[OF assms(1)] by simp
  from ZRange_range[OF this] show ?thesis by (auto split: if_splits)
qed

lemma unat_minus_one': "(k::u64) \<noteq> 0 \<Longrightarrow> unat (k - 1) = unat k - 1"
  by (simp add: unat_minus_one)

lemma unat_plus_one': "(k::u64) < m \<Longrightarrow> unat (k + 1) = unat k + 1"
proof -
  assume "k < m"
  then have "unat k < unat m" by (simp add: word_less_nat_alt)
  moreover have "unat m < 2 ^ 64" using unsigned_less[of m] by simp
  ultimately have "unat k + unat (1::u64) < 2 ^ LENGTH(64)" by simp
  then have "unat (k + 1) = unat k + unat (1::u64)" by (simp only: unat_add_lem)
  then show ?thesis by simp
qed

lemma next_start_measure:
  assumes "start \<noteq> stop"
    and "if reverse then stop \<le> k \<and> k \<le> start else start \<le> k \<and> k \<le> (stop :: u64)"
  shows "(if reverse then unat (next_start reverse stop k) - unat stop
          else unat stop - unat (next_start reverse stop k))
         < (if reverse then unat start - unat stop else unat stop - unat start)"
proof (cases reverse)
  case True
  then have r: "stop \<le> k" "k \<le> start" using assms(2) by auto
  then have r': "unat stop \<le> unat k" "unat k \<le> unat start" by (simp_all add: word_le_nat_alt)
  have ne: "unat start \<noteq> unat stop" using assms(1) by (simp add: word_unat_eq_iff)
  show ?thesis
  proof (cases "k = stop")
    case True
    with r' ne \<open>reverse\<close> show ?thesis
      by (simp add: next_start_def)
  next
    case False
    then have "unat k \<noteq> unat stop" by (simp add: word_unat_eq_iff)
    then have lt: "unat stop < unat k" using r' by simp
    then have "k \<noteq> 0" by auto
    then have "unat (k - 1) = unat k - 1" by (rule unat_minus_one')
    then show ?thesis using False \<open>reverse\<close> lt r' by (simp add: next_start_def)
  qed
next
  case False
  then have r: "start \<le> k" "k \<le> stop" using assms(2) by auto
  then have r': "unat start \<le> unat k" "unat k \<le> unat stop" by (simp_all add: word_le_nat_alt)
  have ne: "unat start \<noteq> unat stop" using assms(1) by (simp add: word_unat_eq_iff)
  show ?thesis
  proof (cases "k = stop")
    case True
    with r' ne \<open>\<not> reverse\<close> show ?thesis
      by (simp add: next_start_def)
  next
    case False
    then have "k < stop" using r by simp
    then have "unat (k + 1) = unat k + 1" by (rule unat_plus_one')
    moreover have "unat k < unat stop" using \<open>k < stop\<close> by (simp add: word_less_nat_alt)
    ultimately show ?thesis using False \<open>\<not> reverse\<close> r' by (simp add: next_start_def)
  qed
qed

text \<open>The outer loop of \<open>Scan\<close>: \<open>for start != end\<close>, one page of at most 100 buckets each
  time round.\<close>

function Scan_loop ::
  "SortId slice_sort \<Rightarrow> string \<Rightarrow> bitmap \<Rightarrow> bool \<Rightarrow> ('c \<Rightarrow> SortId list \<Rightarrow> bool \<times> 'c) \<Rightarrow>
   u64 \<Rightarrow> u64 \<Rightarrow> 'c \<Rightarrow> redis \<Rightarrow> (error + 'c) \<times> redis" where
  "Scan_loop srt indexKey baseBm reverse proc start stop c s =
     (if start = stop then (Inr c, s)
      else (case RedisSortKeyBitmapStore_Scan indexKey start stop reverse 100 s of
              (Inl e, s1) \<Rightarrow> (Inl e, s1)
            | (Inr sortedBms, s1) \<Rightarrow>
                if length sortedBms = 0 then (Inr c, s1)
                else (case scan_page srt indexKey baseBm reverse proc sortedBms c s1 of
                        (Inl e, s2) \<Rightarrow> (Inl e, s2)
                      | (Inr (go, c1), s2) \<Rightarrow>
                          if \<not> go then (Inr c1, s2)
                          else Scan_loop srt indexKey baseBm reverse proc
                                 (next_start reverse stop (SortKey (sortedBms ! (length sortedBms - 1))))
                                 stop c1 s2)))"
  by pat_completeness auto
termination
proof (relation "measure (\<lambda>(srt, indexKey, baseBm, reverse, proc, start, stop, c, s).
                    if reverse then unat start - unat stop else unat stop - unat start)",
       goal_cases)
  case 1
  then show ?case by simp
next
  case (2 srt indexKey baseBm reverse proc start stop c s x y x2 yy s2 x2a go c1)
  then have ne: "x2 \<noteq> []" by simp
  have sc: "RedisSortKeyBitmapStore_Scan indexKey start stop reverse 100 s = (Inr x2, y)"
    using 2 by simp
  have "x2 ! (length x2 - 1) \<in> set x2" using ne by simp
  from Scan_keys_range[OF sc this] 2(1)
  have "(if reverse then unat (next_start reverse stop (SortKey (x2 ! (length x2 - 1)))) - unat stop
         else unat stop - unat (next_start reverse stop (SortKey (x2 ! (length x2 - 1)))))
        < (if reverse then unat start - unat stop else unat stop - unat start)"
    by (intro next_start_measure) auto
  then show ?case by (cases reverse) simp_all
qed

declare Scan_loop.simps [simp del]

definition SparseU64IndexReader_Scan ::
  "SortId slice_sort \<Rightarrow> SparseU64IndexReader \<Rightarrow> bitmap \<Rightarrow> bool \<Rightarrow>
   ('c \<Rightarrow> SortId list \<Rightarrow> bool \<times> 'c) \<Rightarrow> 'c \<Rightarrow> redis \<Rightarrow> (error + 'c) \<times> redis" where
  "SparseU64IndexReader_Scan srt r baseBm reverse proc c =
     Scan_loop srt (MakeIndexKey (SparseU64IndexReader_Index r)) baseBm reverse proc
       (if reverse then 0xFFFFFFFFFFFFFFFF else 0) (if reverse then 0 else 0xFFFFFFFFFFFFFFFF) c"

text \<open>The callback that \<open>List\<close> passes to \<open>Scan\<close>; its closure holds \<open>resultIds\<close>.\<close>

fun list_proc :: "int option \<Rightarrow> u32 list \<Rightarrow> SortId list \<Rightarrow> bool \<times> u32 list" where
  "list_proc limit resultIds [] = (True, resultIds)"
| "list_proc limit resultIds (sortId # rest) =
     (let resultIds1 = resultIds @ [SortId_Id sortId]
      in case limit of
           None \<Rightarrow> list_proc limit resultIds1 rest
         | Some l \<Rightarrow> if int (length resultIds1) \<ge> l then (False, resultIds1)
                     else list_proc limit resultIds1 rest)"

definition and_Get :: "TermIndexReader \<Rightarrow> Term \<Rightarrow> bitmap \<Rightarrow> bitmap io" where
  "and_Get r fv accBm = seq (TermIndexReader_Get r fv) (\<lambda>bm. ret (accBm \<inter> bm))"

definition andNot_Get :: "TermIndexReader \<Rightarrow> Term \<Rightarrow> bitmap \<Rightarrow> bitmap io" where
  "andNot_Get r fv accBm = seq (TermIndexReader_Get r fv) (\<lambda>bm. ret (accBm - bm))"

text \<open>The first part of \<open>List\<close>, up to the line that reads the cardinality: the accumulator
  after the filters of the request.\<close>

definition List_accBm :: "OrdersSearchService \<Rightarrow> Request \<Rightarrow> bitmap io" where
  "List_accBm svc r =
     seq (TermIndexReader_Get (AllIndexReader svc) (Int64 0)) (\<lambda>acc0.
     seq (case OrderStatusEq r of
            None \<Rightarrow> ret acc0
          | Some v \<Rightarrow> and_Get (OrderStatusIndexReader svc) (Int64 v) acc0) (\<lambda>acc1.
     seq (case ProductIDEq r of
            None \<Rightarrow> ret acc1
          | Some v \<Rightarrow> and_Get (ProductIdIndexReader svc) (Int64 v) acc1) (\<lambda>acc2.
     (case ProviderIDFilter r of
        None \<Rightarrow> ret acc2
      | Some f \<Rightarrow>
          if Mode f = FilterModeEq then and_Get (ProviderIdIndexReader svc) (PtrInt64 (Some (Value f))) acc2
          else if Mode f = FilterModeNull then and_Get (ProviderIdIndexReader svc) (PtrInt64 None) acc2
          else if Mode f = FilterModeNotNull then andNot_Get (ProviderIdIndexReader svc) (PtrInt64 None) acc2
          else ret acc2))))"

definition OrdersSearchService_List :: "SortId slice_sort \<Rightarrow> OrdersSearchService \<Rightarrow> Request \<Rightarrow> Response io" where
  "OrdersSearchService_List srt svc r =
     seq (List_accBm svc r) (\<lambda>accBm.
       if Limit r = Some 0 \<or> card accBm = 0 then ret \<lparr>IDs = [], Total = card accBm\<rparr>
       else seq (SparseU64IndexReader_Scan srt (CreateTimeIndexReader svc) accBm True
                   (list_proc (Limit r)) [])
              (\<lambda>resultIds. ret \<lparr>IDs = resultIds, Total = card accBm\<rparr>))"

section \<open>Definitions used to state the properties\<close>

text \<open>The members that \<open>skbm_ZRange\<close> returns, as a function of the sorted set.\<close>

definition zrange :: "u64 set \<Rightarrow> u64 \<Rightarrow> u64 \<Rightarrow> bool \<Rightarrow> nat \<Rightarrow> u64 list" where
  "zrange Z lo hi rev_order cnt =
     (let asc = sorted_list_of_set {k \<in> Z. lo \<le> k \<and> k \<le> hi};
          ms = (if rev_order then rev asc else asc)
      in if cnt = 0 then ms else take cnt ms)"

subsection \<open>Bitmap compaction\<close>

text \<open>P4: no hash field holds the encoding of an empty bitmap.\<close>

definition no_empty_bitmap :: "redis \<Rightarrow> bool" where
  "no_empty_bitmap s \<longleftrightarrow>
     (\<forall>K f. bm_hm s K f \<noteq> Some (Enc {})) \<and> (\<forall>K k. skbm_hm s K k \<noteq> Some (Enc {}))"

text \<open>The sorted set and the hash of an index after \<open>MSet\<close>.\<close>

definition MSet_zs :: "SortKeyBitmap list \<Rightarrow> u64 set \<Rightarrow> u64 set" where
  "MSet_zs skbms Z =
     (Z - SortKey ` {b \<in> set skbms. Bitmap b = {}}) \<union> SortKey ` {b \<in> set skbms. Bitmap b \<noteq> {}}"

definition MSet_hm :: "SortKeyBitmap list \<Rightarrow> (u64 \<rightharpoonup> bitmap stored) \<Rightarrow> (u64 \<rightharpoonup> bitmap stored)" where
  "MSet_hm skbms H =
     foldl (\<lambda>h (f, v). h(f \<mapsto> v))
       (foldl (\<lambda>h f. h(f := None)) H (map SortKey (filter (\<lambda>b. Bitmap b = {}) skbms)))
       (map (\<lambda>b. (SortKey b, Enc (Bitmap b))) (filter (\<lambda>b. Bitmap b \<noteq> {}) skbms))"

subsection \<open>The floor bucket\<close>

text \<open>The greatest sort key that is at most \<open>fv\<close>, if there is one.\<close>

definition floor_key :: "u64 set \<Rightarrow> u64 \<Rightarrow> u64 option" where
  "floor_key Z fv = (if {k \<in> Z. k \<le> fv} = {} then None else Some (Max {k \<in> Z. k \<le> fv}))"

text \<open>The forward value that \<open>MGet\<close> reads for an id: 0 when the entry is missing.\<close>

definition fv_of :: "(u32 \<rightharpoonup> u64 stored) \<Rightarrow> u32 \<Rightarrow> u64" where
  "fv_of F i = (case F i of Some (Enc v) \<Rightarrow> v | _ \<Rightarrow> 0)"

text \<open>The state after the two writes that end \<open>SparseU64IndexWriter.Add\<close>.\<close>

definition sparse_write :: "string \<Rightarrow> u32 \<Rightarrow> u64 \<Rightarrow> SortKeyBitmap list \<Rightarrow> redis \<Rightarrow> redis" where
  "sparse_write K ident fv ups s =
     s\<lparr>skbm_zs := (skbm_zs s)(K := MSet_zs ups (skbm_zs s K)),
       skbm_hm := (skbm_hm s)(K := MSet_hm ups (skbm_hm s K)),
       fv_hm := (fv_hm s)(K := (fv_hm s K)(ident \<mapsto> Enc fv))\<rparr>"

subsection \<open>The split of a bucket\<close>





subsection \<open>What a scan delivers\<close>

text \<open>The pair that \<open>QuerySortIds\<close> compares by.\<close>

definition SortId_key :: "SortId \<Rightarrow> u64 \<times> u32" where
  "SortId_key a = (SortId_SortKey a, SortId_Id a)"

text \<open>A sorting routine to run the model with: insertion sort, which is how \<open>sort.Slice\<close>
  sorts a slice of at most twelve elements.\<close>

fun insert_sorted :: "('a \<Rightarrow> 'a \<Rightarrow> bool) \<Rightarrow> 'a \<Rightarrow> 'a list \<Rightarrow> 'a list" where
  "insert_sorted lt x [] = [x]"
| "insert_sorted lt x (y # ys) = (if lt x y then x # y # ys else y # insert_sorted lt x ys)"

definition insertion_sort :: "'a slice_sort" where
  "insertion_sort lt xs = foldl (\<lambda>acc x. insert_sorted lt x acc) [] xs"

text \<open>Calling the callback on the batches in order, until it returns false. The result is the
  last answer of the callback and what its closure then holds.\<close>

fun deliver :: "('c \<Rightarrow> 'b \<Rightarrow> bool \<times> 'c) \<Rightarrow> 'c \<Rightarrow> 'b list \<Rightarrow> bool \<times> 'c" where
  "deliver proc c [] = (True, c)"
| "deliver proc c (b # bs) =
     (case proc c b of (go, c1) \<Rightarrow> if go then deliver proc c1 bs else (False, c1))"

text \<open>The bitmap a bucket decodes to: empty when the hash has no field for the key.\<close>

definition bucket_of :: "(u64 \<rightharpoonup> bitmap stored) \<Rightarrow> u64 \<Rightarrow> bitmap" where
  "bucket_of H k = (case H k of Some (Enc bm) \<Rightarrow> bm | _ \<Rightarrow> {})"

text \<open>The ids of a bitmap with their forward values, ascending by the pair (forward value, id).\<close>

definition sorted_batch :: "(u32 \<rightharpoonup> u64 stored) \<Rightarrow> bitmap \<Rightarrow> SortId list" where
  "sorted_batch F bm =
     map (\<lambda>i. \<lparr>SortId_Id = i, SortId_SortKey = fv_of F i\<rparr>)
       (sort_key (\<lambda>i. (fv_of F i, i)) (sorted_list_of_set bm))"

text \<open>The batches for a list of bucket keys: the buckets are intersected with the base
  bitmap, the empty intersections are dropped, and each remaining one is sorted, and reversed
  for a reverse scan.\<close>

definition scan_batches ::
  "(u64 \<rightharpoonup> bitmap stored) \<Rightarrow> (u32 \<rightharpoonup> u64 stored) \<Rightarrow> bitmap \<Rightarrow> bool \<Rightarrow> u64 list \<Rightarrow> SortId list list" where
  "scan_batches H F baseBm reverse ks =
     map (\<lambda>bm. if reverse then rev (sorted_batch F bm) else sorted_batch F bm)
       (filter (\<lambda>bm. bm \<noteq> {}) (map (\<lambda>k. bucket_of H k \<inter> baseBm) ks))"

lemma zrange_range:
  "k \<in> set (zrange Z lo hi rev_order cnt) \<Longrightarrow> k \<in> Z \<and> lo \<le> k \<and> k \<le> hi"
  by (auto simp: zrange_def Let_def split: if_splits dest: in_set_takeD)

text \<open>The bucket keys that the loop of \<open>Scan\<close> reads, page after page.\<close>

function scan_keys :: "u64 set \<Rightarrow> bool \<Rightarrow> u64 \<Rightarrow> u64 \<Rightarrow> u64 list" where
  "scan_keys Z reverse start stop =
     (if start = stop then []
      else let page = zrange Z (if reverse then stop else start) (if reverse then start else stop)
                        reverse 100
           in if page = [] then []
              else page @ scan_keys Z reverse (next_start reverse stop (last page)) stop)"
  by pat_completeness auto
termination
proof (relation "measure (\<lambda>(Z, reverse, start, stop).
                    if reverse then unat start - unat stop else unat stop - unat start)",
       goal_cases)
  case 1
  then show ?case by simp
next
  case (2 Z reverse start stop page)
  then have "last page \<in> set page" by simp
  with 2(2) have "last page \<in> set (zrange Z (if reverse then stop else start)
                    (if reverse then start else stop) reverse 100)" by simp
  from zrange_range[OF this] 2(1)
  have "(if reverse then unat (next_start reverse stop (last page)) - unat stop
         else unat stop - unat (next_start reverse stop (last page)))
        < (if reverse then unat start - unat stop else unat stop - unat start)"
    by (intro next_start_measure) (auto split: if_splits)
  then show ?case by (cases reverse) simp_all
qed

declare scan_keys.simps [simp del]

subsection \<open>Example inputs\<close>

text \<open>A server holding two rows in the universe posting, row 1 with a null provider.\<close>

definition demo_terms :: redis where
  "demo_terms = empty_redis\<lparr>bm_hm :=
     (\<lambda>_. Map.empty)(''term:orders:__all'' := [''0'' \<mapsto> Enc {1, 2}],
                        ''term:orders:provider_id'' := [''null'' \<mapsto> Enc {1}])\<rparr>"

definition demo_not_null :: Request where
  "demo_not_null = \<lparr>OrderStatusEq = None, ProductIDEq = None,
                     ProviderIDFilter = Some \<lparr>Mode = FilterModeNotNull, Value = 0\<rparr>, Limit = None\<rparr>"

text \<open>The same server with its create_time index: both rows in the bucket keyed 7, row 1
  created at 7 and row 2 at 9.\<close>

definition demo_rows :: redis where
  "demo_rows = demo_terms\<lparr>
     skbm_zs := (\<lambda>_. {})(''sparse:orders:create_time'' := {7}),
     skbm_hm := (\<lambda>_. Map.empty)(''sparse:orders:create_time'' := [7 \<mapsto> Enc {1, 2}]),
     fv_hm := (\<lambda>_. Map.empty)(''sparse:orders:create_time'' := [1 \<mapsto> Enc 7, 2 \<mapsto> Enc 9])\<rparr>"

text \<open>A writer that splits a bucket holding two ids, and the sparse index after one row
  (id 1, create_time 10) was added.\<close>

definition W2 :: SparseU64IndexWriter where
  "W2 = \<lparr>SparseU64IndexWriter_Index = \<lparr>SparseTableName = ''orders'', SparseFieldName = ''create_time''\<rparr>,
         SplitThreshold = 2\<rparr>"

definition demo_sparse :: redis where
  "demo_sparse = empty_redis\<lparr>
     skbm_zs := (\<lambda>_. {})(''sparse:orders:create_time'' := {10}),
     skbm_hm := (\<lambda>_. Map.empty)(''sparse:orders:create_time'' := [10 \<mapsto> Enc {1}]),
     fv_hm := (\<lambda>_. Map.empty)(''sparse:orders:create_time'' := [1 \<mapsto> Enc 10])\<rparr>"

text \<open>A sparse index of two buckets, and the reader of the create_time index.\<close>

definition demo_buckets :: redis where
  "demo_buckets = empty_redis\<lparr>
     skbm_zs := (\<lambda>_. {})(''sparse:orders:create_time'' := {10, 20}),
     skbm_hm := (\<lambda>_. Map.empty)(''sparse:orders:create_time'' := [10 \<mapsto> Enc {1, 2}, 20 \<mapsto> Enc {3}]),
     fv_hm := (\<lambda>_. Map.empty)(''sparse:orders:create_time'' :=
                [1 \<mapsto> Enc 10, 2 \<mapsto> Enc 10, 3 \<mapsto> Enc 20])\<rparr>"

definition demo_reader :: SparseU64IndexReader where
  "demo_reader = \<lparr>SparseU64IndexReader_Index =
                    \<lparr>SparseTableName = ''orders'', SparseFieldName = ''create_time''\<rparr>\<rparr>"

text \<open>Five calls on an empty sparse index, the writer splitting at two ids: rows 1, 2 and 3
  are added with create_time 10, 20 and 30, row 1 is removed after row 2 came, and row 4 is
  added with create_time 15 when the bucket keyed 10 holds rows 2 and 3.\<close>

definition split_trace :: "(error + unit) \<times> redis" where
  "split_trace =
     seq (SparseU64IndexWriter_Add insertion_sort W2 10 1) (\<lambda>_.
     seq (SparseU64IndexWriter_Add insertion_sort W2 20 2) (\<lambda>_.
     seq (SparseU64IndexWriter_Remove W2 10 1) (\<lambda>_.
     seq (SparseU64IndexWriter_Add insertion_sort W2 30 3) (\<lambda>_.
     SparseU64IndexWriter_Add insertion_sort W2 15 4)))) empty_redis"

text \<open>Three rows of one create_time added to an empty sparse index.\<close>

definition tie_trace :: "(error + unit) \<times> redis" where
  "tie_trace =
     seq (SparseU64IndexWriter_Add insertion_sort W2 5 1) (\<lambda>_.
     seq (SparseU64IndexWriter_Add insertion_sort W2 5 2) (\<lambda>_.
     SparseU64IndexWriter_Add insertion_sort W2 5 3)) empty_redis"




text \<open>A change stream of 101 inserts: row \<open>i + 1\<close> is created with create_time \<open>100 - i\<close>, for
  \<open>i\<close> from 0 to 100. The server state after the consumer that \<open>Start\<close> builds has applied
  them to an empty server, and the request for all rows, without a limit.\<close>

definition desc_id :: "nat \<Rightarrow> u32" where
  "desc_id i = of_nat (Suc i)"

definition desc_ct :: "nat \<Rightarrow> u64" where
  "desc_ct i = of_nat (100 - i)"

definition desc_order :: "nat \<Rightarrow> Order" where
  "desc_order i = \<lparr>ID = desc_id i, OrderStatus = 1, ProductID = 1, ProviderID = None,
                    CreateTime = desc_ct i\<rparr>"

definition desc_msg :: "nat \<Rightarrow> DataChangedMessage" where
  "desc_msg i = \<lparr>Op = ''c'', Before = None, After = Some (desc_order i)\<rparr>"

definition desc_state :: redis where
  "desc_state = snd (ConsumeClaim insertion_sort Start_consumer (map desc_msg [0..<101]) empty_redis)"

definition all_rows :: Request where
  "all_rows = \<lparr>OrderStatusEq = None, ProductIDEq = None, ProviderIDFilter = None, Limit = None\<rparr>"

text \<open>What the server holds after the first \<open>n\<close> of these inserts.\<close>

definition desc_inv :: "nat \<Rightarrow> redis \<Rightarrow> bool" where
  "desc_inv n s \<longleftrightarrow>
     parseBitmap (bm_hm s ''term:orders:__all'' ''0'') = Inr (desc_id ` {0..<n}) \<and>
     parseBitmap (bm_hm s ''term:orders:order_status'' ''1'') = Inr (desc_id ` {0..<n}) \<and>
     parseBitmap (bm_hm s ''term:orders:product_id'' ''1'') = Inr (desc_id ` {0..<n}) \<and>
     parseBitmap (bm_hm s ''term:orders:provider_id'' ''null'') = Inr (desc_id ` {0..<n}) \<and>
     skbm_zs s ''sparse:orders:create_time'' = desc_ct ` {0..<n} \<and>
     (\<forall>i<n. skbm_hm s ''sparse:orders:create_time'' (desc_ct i) = Some (Enc {desc_id i})) \<and>
     (\<forall>i<n. fv_hm s ''sparse:orders:create_time'' (desc_id i) = Some (Enc (desc_ct i))) \<and>
     (\<forall>k. skbm_hm s ''sparse:orders:create_time'' k \<noteq> Some Corrupt) \<and>
     (\<forall>i. fv_hm s ''sparse:orders:create_time'' i \<noteq> Some Corrupt)"

text \<open>What \<open>List\<close> answers for that request on that state.\<close>

definition desc_response :: Response where
  "desc_response = \<lparr>IDs = map desc_id [0..<100], Total = 101\<rparr>"

section \<open>Reads leave the server as it is\<close>

lemma RedisBmStore_Get_eq:
  "RedisBmStore_Get indexKey valueKey s = (parseBitmap (bm_hm s indexKey valueKey), s)"
  by (simp add: RedisBmStore_Get_def bm_HGet_def lift_def)

lemma skbm_ZRange_eq:
  "skbm_ZRange zsetKey lo hi rev_order cnt s = (zrange (skbm_zs s zsetKey) lo hi rev_order cnt, s)"
  by (simp add: skbm_ZRange_def zrange_def Let_def)

lemma RedisSortKeyBitmapStore_Scan_eq:
  "RedisSortKeyBitmapStore_Scan indexKey start stop reverse limit s =
     (let keys = zrange (skbm_zs s indexKey) (if reverse then stop else start)
                   (if reverse then start else stop) reverse limit
      in (decode_skbms keys (map (skbm_hm s indexKey) keys), s))"
  by (cases "zrange (skbm_zs s indexKey) (if reverse then stop else start)
                   (if reverse then start else stop) reverse limit")
     (auto simp: RedisSortKeyBitmapStore_Scan_def skbm_ZRange_eq skbm_HMGet_def lift_def Let_def)

lemma RedisFvStore_MGet_eq:
  "RedisFvStore_MGet indexKey ids s = (parse_fvs (map (fv_hm s indexKey) ids), s)"
  by (simp add: RedisFvStore_MGet_def fv_HMGet_def lift_def)

lemma QuerySortIds_state: "snd (QuerySortIds srt fieldKey bm s) = s"
  by (simp add: QuerySortIds_def RedisFvStore_MGet_eq seq_def ret_def Let_def split: sum.splits)

lemma QuerySortedIds_state: "snd (QuerySortedIds srt fieldKey bm s) = s"
  by (simp add: QuerySortedIds_def RedisFvStore_MGet_eq seq_def ret_def Let_def split: sum.splits)

lemma scan_page_state: "snd (scan_page srt indexKey baseBm reverse proc bms c s) = s"
proof (induction bms arbitrary: c)
  case Nil
  then show ?case by simp
next
  case (Cons b bms)
  have q: "\<And>bm r s1. QuerySortIds srt indexKey bm s = (r, s1) \<Longrightarrow> s1 = s"
    using QuerySortIds_state by (metis snd_conv)
  show ?case using Cons
    by (auto simp: Let_def split: prod.splits sum.splits dest: q)
qed

lemma Scan_loop_state: "snd (Scan_loop srt indexKey baseBm reverse proc start stop c s) = s"
proof (induction srt indexKey baseBm reverse proc start stop c s rule: Scan_loop.induct)
  case (1 srt indexKey baseBm reverse proc start stop c s)
  have sc: "\<And>r s1. RedisSortKeyBitmapStore_Scan indexKey start stop reverse 100 s = (r, s1) \<Longrightarrow> s1 = s"
    by (simp add: RedisSortKeyBitmapStore_Scan_eq Let_def)
  have pg: "\<And>bms r s2. scan_page srt indexKey baseBm reverse proc bms c s = (r, s2) \<Longrightarrow> s2 = s"
    using scan_page_state by (metis snd_conv)
  show ?case
  proof (cases "start = stop")
    case True
    then show ?thesis by (simp add: Scan_loop.simps)
  next
    case False
    show ?thesis
      apply (subst Scan_loop.simps)
      using False 1
      by (auto split: prod.splits sum.splits dest!: sc pg)
  qed
qed

lemma TermIndexReader_Get_eq:
  "TermIndexReader_Get r fv s =
     (parseBitmap (bm_hm s (GetIndexKey (TermIndexReader_Index r)) (MakeValueKey fv)), s)"
  by (simp add: TermIndexReader_Get_def RedisBmStore_Get_eq)

lemma and_Get_state: "snd (and_Get r fv accBm s) = s"
  by (simp add: and_Get_def TermIndexReader_Get_eq seq_def ret_def split: sum.splits)

lemma andNot_Get_state: "snd (andNot_Get r fv accBm s) = s"
  by (simp add: andNot_Get_def TermIndexReader_Get_eq seq_def ret_def split: sum.splits)

lemma seq_state:
  assumes "\<And>s. snd (m s) = s" and "\<And>x s. snd (f x s) = s"
  shows "snd (seq m f s) = s"
proof (cases "m s")
  case (Pair r s1)
  with assms(1)[of s] have "s1 = s" by simp
  with Pair assms(2) show ?thesis by (cases r) (simp_all add: seq_def)
qed

lemma List_accBm_state: "snd (List_accBm svc r s) = s"
  unfolding List_accBm_def
  by (intro seq_state)
     (simp_all add: TermIndexReader_Get_eq and_Get_state andNot_Get_state ret_def
        split: option.splits)

section \<open>The filters of List\<close>

lemma and_Get_eq:
  "and_Get r fv accBm s =
     (case parseBitmap (bm_hm s (GetIndexKey (TermIndexReader_Index r)) (MakeValueKey fv)) of
        Inl e \<Rightarrow> (Inl e, s) | Inr bm \<Rightarrow> (Inr (accBm \<inter> bm), s))"
  by (simp add: and_Get_def TermIndexReader_Get_eq seq_def ret_def split: sum.splits)

lemma andNot_Get_eq:
  "andNot_Get r fv accBm s =
     (case parseBitmap (bm_hm s (GetIndexKey (TermIndexReader_Index r)) (MakeValueKey fv)) of
        Inl e \<Rightarrow> (Inl e, s) | Inr bm \<Rightarrow> (Inr (accBm - bm), s))"
  by (simp add: andNot_Get_def TermIndexReader_Get_eq seq_def ret_def split: sum.splits)

lemma Sprint_int_0: "Sprint_int 0 = ''0''"
  by (simp add: Sprint_int_def)

section \<open>List writes nothing\<close>

text \<open>
  Claim C9. \<open>OrdersSearchService.List\<close> writes nothing: whatever the request and whatever the
  server holds (corrupt values included), and whether the call ends in a response or in an
  error, the server state after the call is the state before it. Every posting, bucket,
  sorted-set member and forward value is therefore as it was. The accumulator and the bucket
  bitmaps that \<open>And\<close> and \<open>AndNot\<close> change are values decoded by \<open>parseBitmap\<close>, not the
  stored bytes.
\<close>

theorem List_writes_nothing:
  "snd (OrdersSearchService_List srt svc r s) = s"
proof -
  have scan: "snd (seq (SparseU64IndexReader_Scan srt (CreateTimeIndexReader svc) accBm True
                          (list_proc (Limit r)) [])
                     (\<lambda>resultIds. ret \<lparr>IDs = resultIds, Total = card accBm\<rparr>) s1) = s1"
    for accBm s1
    unfolding SparseU64IndexReader_Scan_def
    by (rule seq_state) (simp_all add: Scan_loop_state ret_def)
  show ?thesis
    unfolding OrdersSearchService_List_def
    by (rule seq_state) (simp_all add: List_accBm_state scan ret_def)
qed

section \<open>What the writes store\<close>

lemma RedisBmStore_Set_eq:
  "RedisBmStore_Set indexKey valueKey bm s =
     (Inr (), s\<lparr>bm_hm := (bm_hm s)(indexKey := (bm_hm s indexKey)(valueKey :=
                  (if bm = {} then None else Some (Enc bm))))\<rparr>)"
  by (simp add: RedisBmStore_Set_def bm_HDel_def bm_HSet_def)

lemma foldl_del_apply:
  "foldl (\<lambda>h f. h(f := None)) H ks k = (if k \<in> set ks then None else H k)"
  by (induction ks arbitrary: H) auto

lemma foldl_set_apply:
  "foldl (\<lambda>h (f, v). h(f \<mapsto> v)) H ps k =
     (case map_of (rev ps) k of None \<Rightarrow> H k | Some v \<Rightarrow> Some v)"
proof (induction ps rule: rev_induct)
  case Nil
  then show ?case by simp
next
  case (snoc p ps)
  obtain f v where p: "p = (f, v)" by (cases p)
  show ?case using snoc by (simp add: p)
qed

lemma set_map_filter_image:
  "set (map SortKey (filter P skbms)) = SortKey ` {b \<in> set skbms. P b}"
  by auto

lemma redis_same_skbm:
  "s\<lparr>skbm_zs := (skbm_zs s)(K := skbm_zs s K), skbm_hm := (skbm_hm s)(K := skbm_hm s K)\<rparr> = s"
  by simp

lemma RedisSortKeyBitmapStore_MSet_eq:
  "RedisSortKeyBitmapStore_MSet indexKey skbms s =
     (Inr (), s\<lparr>skbm_zs := (skbm_zs s)(indexKey := MSet_zs skbms (skbm_zs s indexKey)),
                skbm_hm := (skbm_hm s)(indexKey := MSet_hm skbms (skbm_hm s indexKey))\<rparr>)"
proof -
  define dels where "dels = filter (\<lambda>b. Bitmap b = {}) skbms"
  define sets where "sets = filter (\<lambda>b. Bitmap b \<noteq> {}) skbms"
  have i1: "SortKey ` {b \<in> set skbms. Bitmap b = {}} = set (map SortKey dels)"
    unfolding dels_def by auto
  have i2: "SortKey ` {b \<in> set skbms. Bitmap b \<noteq> {}} = set (map SortKey sets)"
    unfolding sets_def by auto
  have zs: "MSet_zs skbms Z = (Z - set (map SortKey dels)) \<union> set (map SortKey sets)" for Z
    unfolding MSet_zs_def i1 i2 ..
  have hm: "MSet_hm skbms H =
     foldl (\<lambda>h (f, v). h(f \<mapsto> v)) (foldl (\<lambda>h f. h(f := None)) H (map SortKey dels))
       (map (\<lambda>b. (SortKey b, Enc (Bitmap b))) sets)" for H
    unfolding MSet_hm_def dels_def sets_def ..
  have nil: "skbms = [] \<Longrightarrow> dels = [] \<and> sets = []"
    by (simp add: dels_def sets_def)
  have run: "RedisSortKeyBitmapStore_MSet indexKey skbms s =
     (if length skbms = 0 then ret ()
      else seq (if length (map SortKey dels) > 0
                then seq (skbm_ZRem indexKey (map SortKey dels)) (\<lambda>_. skbm_HDel indexKey (map SortKey dels))
                else ret ())
             (\<lambda>_. if length sets > 0
                   then seq (skbm_ZAdd indexKey (map SortKey sets))
                          (\<lambda>_. skbm_HMSet indexKey (map (\<lambda>skbm. (SortKey skbm, Enc (Bitmap skbm))) sets))
                   else ret ())) s"
    unfolding RedisSortKeyBitmapStore_MSet_def Let_def dels_def sets_def card_eq_0_iff
    by simp
  show ?thesis
  proof (cases "skbms = []")
    case True
    then show ?thesis
      by (simp add: RedisSortKeyBitmapStore_MSet_def MSet_zs_def MSet_hm_def ret_def)
  next
    case False
    show ?thesis
      unfolding run zs hm
      by (cases "dels = []"; cases "sets = []")
         (simp_all add: False seq_def ret_def skbm_ZRem_def skbm_HDel_def skbm_ZAdd_def skbm_HMSet_def
            del: set_map)
  qed
qed


lemma MSet_hm_apply:
  "MSet_hm skbms H k =
     (case map_of (rev (map (\<lambda>b. (SortKey b, Enc (Bitmap b))) (filter (\<lambda>b. Bitmap b \<noteq> {}) skbms))) k of
        Some v \<Rightarrow> Some v
      | None \<Rightarrow> if k \<in> SortKey ` {b \<in> set skbms. Bitmap b = {}} then None else H k)"
  unfolding MSet_hm_def foldl_set_apply foldl_del_apply set_map_filter_image
  by (simp split: option.splits)

lemma MSet_hm_not_empty:
  assumes "H k \<noteq> Some (Enc {})"
  shows "MSet_hm skbms H k \<noteq> Some (Enc {})"
proof (cases "map_of (rev (map (\<lambda>b. (SortKey b, Enc (Bitmap b))) (filter (\<lambda>b. Bitmap b \<noteq> {}) skbms))) k")
  case None
  then show ?thesis using assms by (simp add: MSet_hm_apply)
next
  case (Some v)
  then have "(k, v) \<in> set (rev (map (\<lambda>b. (SortKey b, Enc (Bitmap b))) (filter (\<lambda>b. Bitmap b \<noteq> {}) skbms)))"
    by (rule map_of_SomeD)
  then have "v \<noteq> Enc {}" by auto
  with Some show ?thesis by (simp add: MSet_hm_apply)
qed

section \<open>Bitmap compaction is kept by every write\<close>

lemma seq_keeps:
  assumes "\<And>s. I s \<Longrightarrow> I (snd (m s))" and "\<And>x s. I s \<Longrightarrow> I (snd (f x s))" and "I s"
  shows "I (snd (seq m f s))"
proof (cases "m s")
  case (Pair r s1)
  with assms(1)[OF assms(3)] have "I s1" by simp
  with Pair assms(2) show ?thesis by (cases r) (simp_all add: seq_def)
qed

lemma Set_keeps_no_empty:
  "no_empty_bitmap s \<Longrightarrow> no_empty_bitmap (snd (RedisBmStore_Set K f bm s))"
  by (simp add: RedisBmStore_Set_eq no_empty_bitmap_def)

lemma MSet_keeps_no_empty:
  "no_empty_bitmap s \<Longrightarrow> no_empty_bitmap (snd (RedisSortKeyBitmapStore_MSet K skbms s))"
  by (simp add: RedisSortKeyBitmapStore_MSet_eq no_empty_bitmap_def MSet_hm_not_empty)

lemma fv_keeps_no_empty:
  "no_empty_bitmap s \<Longrightarrow> no_empty_bitmap (snd (RedisFvStore_Set K i v s))"
  "no_empty_bitmap s \<Longrightarrow> no_empty_bitmap (snd (RedisFvStore_Remove K i s))"
  "no_empty_bitmap s \<Longrightarrow> no_empty_bitmap (snd (slog_Warn msg s))"
  by (simp_all add: RedisFvStore_Set_def RedisFvStore_Remove_def fv_HSet_def fv_HDel_def slog_Warn_def
        no_empty_bitmap_def)

lemma RedisBmStore_Get_state: "snd (RedisBmStore_Get K f s) = s"
  by (simp add: RedisBmStore_Get_eq)

lemma getFloorSortedBm_state: "snd (getFloorSortedBm K fv s) = s"
  unfolding getFloorSortedBm_def
  by (rule seq_state) (simp_all add: RedisSortKeyBitmapStore_Scan_eq Let_def ret_def)

lemma split_sorted_state: "snd (split_sorted sortedIds fv s) = s"
  by (simp add: split_sorted_def throw_def ret_def Let_def)

lemma TermIndexWriter_Add_keeps:
  "no_empty_bitmap s \<Longrightarrow> no_empty_bitmap (snd (TermIndexWriter_Add w fv ident s))"
  unfolding TermIndexWriter_Add_def Let_def
  by (rule seq_keeps) (simp_all add: RedisBmStore_Get_state Set_keeps_no_empty)

lemma TermIndexWriter_Remove_keeps:
  "no_empty_bitmap s \<Longrightarrow> no_empty_bitmap (snd (TermIndexWriter_Remove w fv ident s))"
  unfolding TermIndexWriter_Remove_def Let_def
  by (rule seq_keeps) (simp_all add: RedisBmStore_Get_state Set_keeps_no_empty)

lemma TermIndexWriter_Move_keeps:
  "no_empty_bitmap s \<Longrightarrow> no_empty_bitmap (snd (TermIndexWriter_Move w old new ident s))"
proof (cases "Term_eq old new")
  case True
  then show "no_empty_bitmap s \<Longrightarrow> ?thesis" by (simp add: TermIndexWriter_Move_def ret_def)
next
  case False
  assume "no_empty_bitmap s"
  then have "no_empty_bitmap (snd (seq (TermIndexWriter_Remove w old ident)
                                     (\<lambda>_. TermIndexWriter_Add w new ident) s))"
    by (rule seq_keeps[rotated 2]) (simp_all add: TermIndexWriter_Remove_keeps TermIndexWriter_Add_keeps)
  with False show ?thesis by (simp add: TermIndexWriter_Move_def)
qed

lemma SparseU64IndexWriter_Add_keeps:
  assumes "no_empty_bitmap s"
  shows "no_empty_bitmap (snd (SparseU64IndexWriter_Add srt w fv ident s))"
proof -
  have tail: "no_empty_bitmap (snd ((case ups of [] \<Rightarrow> throw Panic
               | b # bs \<Rightarrow> seq (RedisFvStore_Set K ident fv)
                   (\<lambda>_. RedisSortKeyBitmapStore_MSet K (b\<lparr>Bitmap := insert ident (Bitmap b)\<rparr> # bs))) s1))"
    if "no_empty_bitmap s1" for ups K s1
  proof (cases ups)
    case Nil
    then show ?thesis using that by (simp add: throw_def)
  next
    case (Cons b bs)
    have "no_empty_bitmap (snd (seq (RedisFvStore_Set K ident fv)
                   (\<lambda>_. RedisSortKeyBitmapStore_MSet K (b\<lparr>Bitmap := insert ident (Bitmap b)\<rparr> # bs)) s1))"
      using that by (rule seq_keeps[rotated 2]) (simp_all add: fv_keeps_no_empty MSet_keeps_no_empty)
    with Cons show ?thesis by simp
  qed
  have head: "snd ((case fl of None \<Rightarrow> ret [\<lparr>SortKey = fv, Bitmap = {}\<rparr>]
                   | Some b \<Rightarrow> if int (card (Bitmap b)) < SplitThreshold w mod 2 ^ 64 then ret [b]
                       else seq (QuerySortedIds srt K (Bitmap b)) (\<lambda>sortedIds. split_sorted sortedIds fv)) s1) = s1"
    for fl K s1
  proof (cases fl)
    case None
    then show ?thesis by (simp add: ret_def)
  next
    case (Some b)
    have "snd (seq (QuerySortedIds srt K (Bitmap b)) (\<lambda>sortedIds. split_sorted sortedIds fv) s1) = s1"
      by (rule seq_state) (simp_all add: QuerySortedIds_state split_sorted_state)
    with Some show ?thesis by (simp add: ret_def)
  qed
  show ?thesis
    unfolding SparseU64IndexWriter_Add_def Let_def
    using assms
    apply (rule seq_keeps[rotated 2])
     apply (simp add: getFloorSortedBm_state)
    apply (rule seq_keeps)
      apply (simp add: head)
     apply (rule tail)
     apply assumption+
    done
qed

lemma SparseU64IndexWriter_Remove_keeps:
  assumes "no_empty_bitmap s"
  shows "no_empty_bitmap (snd (SparseU64IndexWriter_Remove w fv ident s))"
proof -
  have mid: "no_empty_bitmap (snd ((case fl of
                     Some b \<Rightarrow> RedisSortKeyBitmapStore_MSet K [b\<lparr>Bitmap := Bitmap b - {ident}\<rparr>]
                   | None \<Rightarrow> slog_Warn ''cannot find floor sorted bitmap'') s1))"
    if "no_empty_bitmap s1" for fl K s1
    using that by (cases fl) (simp_all add: fv_keeps_no_empty MSet_keeps_no_empty)
  show ?thesis
    unfolding SparseU64IndexWriter_Remove_def Let_def
    using assms
    apply (rule seq_keeps[rotated 2])
     apply (simp add: getFloorSortedBm_state)
    apply (rule seq_keeps)
      apply (rule mid, assumption)
     apply (simp add: fv_keeps_no_empty)
    apply assumption
    done
qed

lemma SparseU64IndexWriter_Move_keeps:
  assumes "no_empty_bitmap s"
  shows "no_empty_bitmap (snd (SparseU64IndexWriter_Move srt w old new ident s))"
proof (cases "old = new")
  case True
  then show ?thesis using assms by (simp add: SparseU64IndexWriter_Move_def ret_def)
next
  case False
  have "no_empty_bitmap (snd (seq (SparseU64IndexWriter_Remove w old ident)
                                (\<lambda>_. SparseU64IndexWriter_Add srt w new ident) s))"
    using assms
    by (rule seq_keeps[rotated 2])
       (simp_all add: SparseU64IndexWriter_Remove_keeps SparseU64IndexWriter_Add_keeps)
  with False show ?thesis by (simp add: SparseU64IndexWriter_Move_def)
qed

section \<open>The writer of the sparse index, as a function of the stored data\<close>

lemma last_sorted_list_of_set:
  assumes "finite A" "A \<noteq> {}"
  shows "last (sorted_list_of_set A) = Max A"
proof -
  let ?xs = "sorted_list_of_set A"
  have ne: "?xs \<noteq> []" using assms by (simp add: sorted_list_of_set_eq_Nil_iff)
  have "last ?xs \<in> set ?xs" using ne by simp
  then have mem: "last ?xs \<in> A" using assms by simp
  have "x \<le> last ?xs" if "x \<in> A" for x
  proof -
    from that assms have "x \<in> set ?xs" by simp
    then obtain i where i: "i < length ?xs" "?xs ! i = x" by (auto simp: in_set_conv_nth)
    have "?xs ! i \<le> ?xs ! (length ?xs - 1)"
      using i(1) by (intro sorted_nth_mono) auto
    then show ?thesis using i(2) ne by (simp add: last_conv_nth)
  qed
  then show ?thesis using mem assms by (intro Max_eqI[symmetric]) auto
qed

lemma zrange_floor: "zrange Z 0 fv True 1 = (case floor_key Z fv of None \<Rightarrow> [] | Some k \<Rightarrow> [k])"
proof -
  let ?A = "{k \<in> Z. k \<le> fv}"
  have A: "{k \<in> Z. 0 \<le> k \<and> k \<le> fv} = ?A" by simp
  show ?thesis
  proof (cases "?A = {}")
    case True
    then show ?thesis by (simp add: zrange_def floor_key_def)
  next
    case False
    then have ne: "sorted_list_of_set ?A \<noteq> []" by (simp add: sorted_list_of_set_eq_Nil_iff)
    then have "take 1 (rev (sorted_list_of_set ?A)) = [last (sorted_list_of_set ?A)]"
      by (cases "rev (sorted_list_of_set ?A)") (auto simp: last_rev[symmetric] simp del: last_rev)
    then show ?thesis using False
      by (simp add: zrange_def floor_key_def last_sorted_list_of_set del: One_nat_def)
  qed
qed

lemma getFloorSortedBm_eq:
  "getFloorSortedBm K fv s =
     (case floor_key (skbm_zs s K) fv of
        None \<Rightarrow> (Inr None, s)
      | Some k \<Rightarrow> (case parseBitmap (skbm_hm s K k) of
                     Inl e \<Rightarrow> (Inl e, s)
                   | Inr bm \<Rightarrow> (Inr (Some \<lparr>SortKey = k, Bitmap = bm\<rparr>), s)))"
  by (simp add: getFloorSortedBm_def seq_def ret_def RedisSortKeyBitmapStore_Scan_eq Let_def
        zrange_floor[unfolded One_nat_def]
      split: option.splits sum.splits)

lemma QuerySortedIds_eq:
  "QuerySortedIds srt K bm s =
     (case parse_fvs (map (fv_hm s K) (sorted_list_of_set bm)) of
        Inl e \<Rightarrow> (Inl e, s)
      | Inr fvs \<Rightarrow> (Inr (srt SortedId_less
                           (map (\<lambda>(i, fv). \<lparr>SortedId_Id = i, SortedId_Score = fv\<rparr>)
                              (zip (sorted_list_of_set bm) fvs))), s))"
  by (simp add: QuerySortedIds_def Let_def seq_def ret_def RedisFvStore_MGet_eq split: sum.splits)

lemma sparse_tail_eq:
  "seq (RedisFvStore_Set K ident fv) (\<lambda>_. RedisSortKeyBitmapStore_MSet K ups) s =
     (Inr (), sparse_write K ident fv ups s)"
  by (simp add: seq_def RedisFvStore_Set_def fv_HSet_def RedisSortKeyBitmapStore_MSet_eq sparse_write_def)

lemma Add_no_floor:
  assumes "floor_key (skbm_zs s (MakeIndexKey (SparseU64IndexWriter_Index w))) fv = None"
  shows "SparseU64IndexWriter_Add srt w fv ident s =
           (Inr (), sparse_write (MakeIndexKey (SparseU64IndexWriter_Index w)) ident fv
                      [\<lparr>SortKey = fv, Bitmap = {ident}\<rparr>] s)"
  using assms
  by (simp add: SparseU64IndexWriter_Add_def Let_def getFloorSortedBm_eq seq_def ret_def
        sparse_tail_eq[unfolded seq_def])

lemma Add_in_place:
  assumes "floor_key (skbm_zs s (MakeIndexKey (SparseU64IndexWriter_Index w))) fv = Some k"
    and "skbm_hm s (MakeIndexKey (SparseU64IndexWriter_Index w)) k = Some (Enc bm)"
    and "int (card bm) < SplitThreshold w mod 2 ^ 64"
  shows "SparseU64IndexWriter_Add srt w fv ident s =
           (Inr (), sparse_write (MakeIndexKey (SparseU64IndexWriter_Index w)) ident fv
                      [\<lparr>SortKey = k, Bitmap = insert ident bm\<rparr>] s)"
  using assms
  by (simp add: SparseU64IndexWriter_Add_def Let_def getFloorSortedBm_eq seq_def ret_def
        parseBitmap_def sparse_tail_eq[unfolded seq_def])

lemma Add_split:
  assumes "floor_key (skbm_zs s (MakeIndexKey (SparseU64IndexWriter_Index w))) fv = Some k"
    and "skbm_hm s (MakeIndexKey (SparseU64IndexWriter_Index w)) k = Some (Enc bm)"
    and "\<not> int (card bm) < SplitThreshold w mod 2 ^ 64"
    and "parse_fvs (map (fv_hm s (MakeIndexKey (SparseU64IndexWriter_Index w))) (sorted_list_of_set bm)) = Inr fvs"
    and "srt SortedId_less (map (\<lambda>(i, fv). \<lparr>SortedId_Id = i, SortedId_Score = fv\<rparr>)
                              (zip (sorted_list_of_set bm) fvs)) = sortedIds"
    and "sortedIds \<noteq> []"
    and "b1 = \<lparr>SortKey = SortedId_Score (sortedIds ! 0),
               Bitmap = set (map SortedId_Id (take (length sortedIds div 2) sortedIds))\<rparr>"
    and "b2 = \<lparr>SortKey = SortedId_Score (sortedIds ! (length sortedIds div 2)),
               Bitmap = set (map SortedId_Id (drop (length sortedIds div 2) sortedIds))\<rparr>"
  shows "SparseU64IndexWriter_Add srt w fv ident s =
           (Inr (), sparse_write (MakeIndexKey (SparseU64IndexWriter_Index w)) ident fv
                      (if SortKey b2 \<le> fv then [b2\<lparr>Bitmap := insert ident (Bitmap b2)\<rparr>, b1]
                       else [b1\<lparr>Bitmap := insert ident (Bitmap b1)\<rparr>, b2]) s)"
  using assms
  by (simp add: SparseU64IndexWriter_Add_def Let_def getFloorSortedBm_eq seq_def ret_def
        parseBitmap_def QuerySortedIds_eq split_sorted_def sparse_tail_eq[unfolded seq_def])

lemma Remove_no_floor:
  assumes "floor_key (skbm_zs s (MakeIndexKey (SparseU64IndexWriter_Index w))) fv = None"
  shows "SparseU64IndexWriter_Remove w fv ident s =
           (Inr (), s\<lparr>slog := slog s @ [''cannot find floor sorted bitmap''],
                      fv_hm := (fv_hm s)(MakeIndexKey (SparseU64IndexWriter_Index w) :=
                                 (fv_hm s (MakeIndexKey (SparseU64IndexWriter_Index w)))(ident := None))\<rparr>)"
  using assms
  by (simp add: SparseU64IndexWriter_Remove_def Let_def getFloorSortedBm_eq seq_def
        slog_Warn_def RedisFvStore_Remove_def fv_HDel_def)

lemma Remove_floor:
  assumes "floor_key (skbm_zs s (MakeIndexKey (SparseU64IndexWriter_Index w))) fv = Some k"
    and "skbm_hm s (MakeIndexKey (SparseU64IndexWriter_Index w)) k = Some (Enc bm)"
  shows "SparseU64IndexWriter_Remove w fv ident s =
           (Inr (), s\<lparr>skbm_zs := (skbm_zs s)(MakeIndexKey (SparseU64IndexWriter_Index w) :=
                          MSet_zs [\<lparr>SortKey = k, Bitmap = bm - {ident}\<rparr>]
                            (skbm_zs s (MakeIndexKey (SparseU64IndexWriter_Index w)))),
                      skbm_hm := (skbm_hm s)(MakeIndexKey (SparseU64IndexWriter_Index w) :=
                          MSet_hm [\<lparr>SortKey = k, Bitmap = bm - {ident}\<rparr>]
                            (skbm_hm s (MakeIndexKey (SparseU64IndexWriter_Index w)))),
                      fv_hm := (fv_hm s)(MakeIndexKey (SparseU64IndexWriter_Index w) :=
                                 (fv_hm s (MakeIndexKey (SparseU64IndexWriter_Index w)))(ident := None))\<rparr>)"
  using assms
  by (simp add: SparseU64IndexWriter_Remove_def Let_def getFloorSortedBm_eq seq_def parseBitmap_def
        RedisSortKeyBitmapStore_MSet_eq RedisFvStore_Remove_def fv_HDel_def)

section \<open>Claim C6: bitmap compaction\<close>

lemma W2_key: "MakeIndexKey (SparseU64IndexWriter_Index W2) = ''sparse:orders:create_time''"
  by (simp add: W2_def MakeIndexKey_def)

lemma no_empty_demo_terms: "no_empty_bitmap demo_terms"
  by (simp add: no_empty_bitmap_def demo_terms_def empty_redis_def)

lemma no_empty_demo_sparse: "no_empty_bitmap demo_sparse"
  by (simp add: no_empty_bitmap_def demo_sparse_def empty_redis_def)

text \<open>
  Claim C6. If no stored bitmap is empty, then none is after \<open>RedisBmStore.Set\<close>, after
  \<open>RedisSortKeyBitmapStore.MSet\<close>, or after \<open>Add\<close>, \<open>Remove\<close> or \<open>Move\<close> of the term index
  and of the sparse index, whether the call succeeds or fails. \<open>Set\<close> with an empty bitmap
  deletes the field. \<open>MSet\<close> removes the sort key of an empty bitmap from the sorted set and
  from the hash, unless the same call also carries a non-empty bitmap under that sort key.
\<close>

theorem writes_keep_compaction:
  assumes "no_empty_bitmap s"
  shows "no_empty_bitmap (snd (RedisBmStore_Set K f bm s)) \<and>
         no_empty_bitmap (snd (RedisSortKeyBitmapStore_MSet K skbms s)) \<and>
         no_empty_bitmap (snd (TermIndexWriter_Add tw v ident s)) \<and>
         no_empty_bitmap (snd (TermIndexWriter_Remove tw v ident s)) \<and>
         no_empty_bitmap (snd (TermIndexWriter_Move tw v v' ident s)) \<and>
         no_empty_bitmap (snd (SparseU64IndexWriter_Add srt sw fv ident s)) \<and>
         no_empty_bitmap (snd (SparseU64IndexWriter_Remove sw fv ident s)) \<and>
         no_empty_bitmap (snd (SparseU64IndexWriter_Move srt sw fv fv' ident s)) \<and>
         bm_hm (snd (RedisBmStore_Set K f {} s)) K f = None \<and>
         (b \<in> set skbms \<and> Bitmap b = {} \<and> SortKey b \<notin> SortKey ` {c \<in> set skbms. Bitmap c \<noteq> {}} \<longrightarrow>
            SortKey b \<notin> skbm_zs (snd (RedisSortKeyBitmapStore_MSet K skbms s)) K \<and>
            skbm_hm (snd (RedisSortKeyBitmapStore_MSet K skbms s)) K (SortKey b) = None)"
proof -
  have del: "SortKey b \<notin> skbm_zs (snd (RedisSortKeyBitmapStore_MSet K skbms s)) K \<and>
             skbm_hm (snd (RedisSortKeyBitmapStore_MSet K skbms s)) K (SortKey b) = None"
    if b: "b \<in> set skbms" "Bitmap b = {}" "SortKey b \<notin> SortKey ` {c \<in> set skbms. Bitmap c \<noteq> {}}"
  proof -
    have "map_of (rev (map (\<lambda>b. (SortKey b, Enc (Bitmap b))) (filter (\<lambda>b. Bitmap b \<noteq> {}) skbms)))
            (SortKey b) = None"
      using b(3) by (auto simp: map_of_eq_None_iff image_iff)
    moreover have "SortKey b \<in> SortKey ` {b \<in> set skbms. Bitmap b = {}}" using b by auto
    ultimately show ?thesis using b(3)
      by (simp add: RedisSortKeyBitmapStore_MSet_eq MSet_zs_def MSet_hm_apply)
  qed
  have gone: "bm_hm (snd (RedisBmStore_Set K f {} s)) K f = None"
    by (simp add: RedisBmStore_Set_eq)
  from assms show ?thesis
    by (intro conjI impI Set_keeps_no_empty MSet_keeps_no_empty TermIndexWriter_Add_keeps
          TermIndexWriter_Remove_keeps TermIndexWriter_Move_keeps SparseU64IndexWriter_Add_keeps
          SparseU64IndexWriter_Remove_keeps SparseU64IndexWriter_Move_keeps gone)
       (use del in blast)+
qed

lemma MSet_zs_list:
  "MSet_zs skbms Z =
     (Z - set (map SortKey (filter (\<lambda>b. Bitmap b = {}) skbms))) \<union>
     set (map SortKey (filter (\<lambda>b. Bitmap b \<noteq> {}) skbms))"
  unfolding MSet_zs_def set_map_filter_image ..

lemma floor_demo_sparse: "floor_key {10} 10 = Some 10"
proof -
  have "{k \<in> {10 :: u64}. k \<le> 10} = {10}" by auto
  then show ?thesis by (simp add: floor_key_def)
qed

lemma Remove_demo_sparse:
  "SparseU64IndexWriter_Remove W2 10 1 demo_sparse =
     (Inr (), demo_sparse\<lparr>
        skbm_zs := (\<lambda>_. {})(''sparse:orders:create_time'' := {}),
        skbm_hm := (\<lambda>_. Map.empty)(''sparse:orders:create_time'' := Map.empty),
        fv_hm := (\<lambda>_. Map.empty)(''sparse:orders:create_time'' := Map.empty)\<rparr>)"
proof -
  have fl: "floor_key (skbm_zs demo_sparse (MakeIndexKey (SparseU64IndexWriter_Index W2))) 10 = Some 10"
    by (simp add: W2_key demo_sparse_def empty_redis_def floor_demo_sparse)
  have hm: "skbm_hm demo_sparse (MakeIndexKey (SparseU64IndexWriter_Index W2)) 10 = Some (Enc {1})"
    by (simp add: W2_key demo_sparse_def empty_redis_def)
  show ?thesis
    unfolding Remove_floor[OF fl hm]
    by (simp add: W2_key demo_sparse_def empty_redis_def MSet_zs_list MSet_hm_def)
qed

theorem writes_keep_compaction_witness:
  "no_empty_bitmap demo_sparse \<and>
   no_empty_bitmap (snd (SparseU64IndexWriter_Remove W2 10 1 demo_sparse)) \<and>
   skbm_zs (snd (SparseU64IndexWriter_Remove W2 10 1 demo_sparse)) ''sparse:orders:create_time'' = {} \<and>
   skbm_hm (snd (SparseU64IndexWriter_Remove W2 10 1 demo_sparse)) ''sparse:orders:create_time'' 10 = None \<and>
   bm_hm (snd (RedisBmStore_Set ''term:orders:provider_id'' ''null'' {} demo_sparse))
     ''term:orders:provider_id'' ''null'' = None"
  using writes_keep_compaction[OF no_empty_demo_sparse,
      where K = "''term:orders:provider_id''" and f = "''null''" and sw = W2 and fv = 10
        and ident = 1]
  by (simp add: no_empty_demo_sparse Remove_demo_sparse)

section \<open>Claim C7: Remove without a floor bucket\<close>

text \<open>
  Claim C7. When \<open>getFloorSortedBm\<close> finds no bucket at or below \<open>fv\<close>,
  \<open>SparseU64IndexWriter.Remove\<close> returns no error: it logs the warning, leaves the sorted set
  and every bitmap as they are, and removes the forward entry of the id. Run again on the
  state it left (a replayed delete), it succeeds again and changes no stored datum.
\<close>

theorem Remove_without_floor:
  assumes "getFloorSortedBm (MakeIndexKey (SparseU64IndexWriter_Index w)) fv s = (Inr None, s)"
  shows "\<exists>s1. SparseU64IndexWriter_Remove w fv ident s = (Inr (), s1) \<and>
           slog s1 = slog s @ [''cannot find floor sorted bitmap''] \<and>
           skbm_zs s1 = skbm_zs s \<and> skbm_hm s1 = skbm_hm s \<and> bm_hm s1 = bm_hm s \<and>
           fv_hm s1 = (fv_hm s)(MakeIndexKey (SparseU64IndexWriter_Index w) :=
                        (fv_hm s (MakeIndexKey (SparseU64IndexWriter_Index w)))(ident := None)) \<and>
           (\<exists>s2. SparseU64IndexWriter_Remove w fv ident s1 = (Inr (), s2) \<and>
              skbm_zs s2 = skbm_zs s1 \<and> skbm_hm s2 = skbm_hm s1 \<and> bm_hm s2 = bm_hm s1 \<and>
              fv_hm s2 = fv_hm s1)"
proof -
  let ?K = "MakeIndexKey (SparseU64IndexWriter_Index w)"
  have fl: "floor_key (skbm_zs s ?K) fv = None"
    using assms by (auto simp: getFloorSortedBm_eq split: option.splits sum.splits)
  define s1 where "s1 = s\<lparr>slog := slog s @ [''cannot find floor sorted bitmap''],
                      fv_hm := (fv_hm s)(?K := (fv_hm s ?K)(ident := None))\<rparr>"
  have r1: "SparseU64IndexWriter_Remove w fv ident s = (Inr (), s1)"
    unfolding s1_def by (rule Remove_no_floor[OF fl])
  have fl1: "floor_key (skbm_zs s1 ?K) fv = None" using fl by (simp add: s1_def)
  from Remove_no_floor[OF fl1]
  have r2: "SparseU64IndexWriter_Remove w fv ident s1 =
              (Inr (), s1\<lparr>slog := slog s1 @ [''cannot find floor sorted bitmap''],
                      fv_hm := (fv_hm s1)(?K := (fv_hm s1 ?K)(ident := None))\<rparr>)" .
  have same: "(fv_hm s1)(?K := (fv_hm s1 ?K)(ident := None)) = fv_hm s1"
    by (simp add: s1_def)
  show ?thesis
    apply (rule exI[of _ s1])
    apply (simp add: r1)
    apply (simp add: r2 same)
    apply (simp add: s1_def)
    done
qed

lemma floor_nothing_below: "floor_key {10} 5 = None"
proof -
  have "{k \<in> {10 :: u64}. k \<le> 5} = {}" by (auto simp: word_le_nat_alt)
  then show ?thesis by (simp add: floor_key_def)
qed

theorem Remove_without_floor_witness:
  "getFloorSortedBm (MakeIndexKey (SparseU64IndexWriter_Index W2)) 5 demo_sparse = (Inr None, demo_sparse) \<and>
   fst (SparseU64IndexWriter_Remove W2 5 1 demo_sparse) = Inr () \<and>
   skbm_zs (snd (SparseU64IndexWriter_Remove W2 5 1 demo_sparse)) = skbm_zs demo_sparse \<and>
   fv_hm (snd (SparseU64IndexWriter_Remove W2 5 1 demo_sparse)) ''sparse:orders:create_time'' 1 = None"
proof -
  have g: "getFloorSortedBm (MakeIndexKey (SparseU64IndexWriter_Index W2)) 5 demo_sparse = (Inr None, demo_sparse)"
    by (simp add: getFloorSortedBm_eq W2_key demo_sparse_def empty_redis_def floor_nothing_below)
  from Remove_without_floor[OF g, of 1] g show ?thesis
    by (auto simp: W2_key)
qed

section \<open>What Scan delivers\<close>

lemma parse_fvs_ok:
  assumes "\<forall>i. F i \<noteq> Some Corrupt"
  shows "parse_fvs (map F ids) = Inr (map (fv_of F) ids)"
proof (induction ids)
  case Nil
  then show ?case by simp
next
  case (Cons i ids)
  have "F i \<noteq> Some Corrupt" using assms by simp
  then show ?case using Cons
    by (cases "F i") (auto simp: fv_of_def split: stored.splits)
qed

lemma zip_map_self: "zip xs (map f xs) = map (\<lambda>x. (x, f x)) xs"
  by (induction xs) auto

lemma SortId_key_inj: "inj SortId_key"
  by (rule injI) (simp add: SortId_key_def)

lemma SortId_less_key: "SortId_less a b \<longleftrightarrow> SortId_key a < SortId_key b"
  by (auto simp: SortId_less_def SortId_key_def less_prod_def)

lemma sort_Slice_unique:
  assumes ok: "sort_Slice_ok srt SortId_less"
    and d: "distinct ids"
  shows "srt SortId_less (map (\<lambda>i. \<lparr>SortId_Id = i, SortId_SortKey = f i\<rparr>) ids) =
         map (\<lambda>i. \<lparr>SortId_Id = i, SortId_SortKey = f i\<rparr>) (sort_key (\<lambda>i. (f i, i)) ids)"
proof -
  let ?mk = "\<lambda>i. \<lparr>SortId_Id = i, SortId_SortKey = f i\<rparr>"
  let ?xs = "map ?mk ids"
  let ?ys = "srt SortId_less ?xs"
  let ?zs = "map ?mk (sort_key (\<lambda>i. (f i, i)) ids)"
  have ms: "mset ?ys = mset ?xs" and so: "sorted_wrt (\<lambda>a b. \<not> SortId_less b a) ?ys"
    using ok by (simp_all add: sort_Slice_ok_def)
  have key_mk: "SortId_key (?mk i) = (f i, i)" for i by (simp add: SortId_key_def)
  have inj_h: "inj (\<lambda>i. (f i, i))" by (rule injI) simp
  have mx: "map SortId_key ?xs = map (\<lambda>i. (f i, i)) ids"
    by (simp add: comp_def key_mk)
  have dx: "distinct (map SortId_key ?xs)"
    unfolding mx using d by (simp add: distinct_map inj_on_def)
  have "image_mset SortId_key (mset ?ys) = image_mset SortId_key (mset ?xs)"
    by (simp only: ms)
  then have me: "mset (map SortId_key ?ys) = mset (map SortId_key ?xs)"
    by (simp only: mset_map)
  have dy: "distinct (map SortId_key ?ys)"
    using mset_eq_imp_distinct_iff[OF me] dx by blast
  have sy: "set (map SortId_key ?ys) = set (map SortId_key ?xs)"
    using mset_eq_setD[OF me] .
  have rel: "(\<lambda>a b. \<not> SortId_less b a) = (\<lambda>a b. SortId_key a \<le> SortId_key b)"
    by (intro ext) (simp add: SortId_less_key not_less)
  have sorted_y: "sorted (map SortId_key ?ys)"
    using so unfolding rel by (simp only: sorted_map)
  have kz: "map SortId_key ?zs = map (\<lambda>i. (f i, i)) (sort_key (\<lambda>i. (f i, i)) ids)"
    by (simp add: comp_def key_mk)
  have sorted_z: "sorted (map SortId_key ?zs)" unfolding kz by simp
  have dz: "distinct (map SortId_key ?zs)"
    unfolding kz using d inj_h by (simp add: distinct_map inj_on_def)
  have sz: "set (map SortId_key ?zs) = set (map SortId_key ?xs)"
    unfolding kz mx by simp
  have "set (map SortId_key ?ys) = set (map SortId_key ?zs)"
    using sy sz by (simp only:)
  with sorted_y dy sorted_z dz have "map SortId_key ?ys = map SortId_key ?zs"
    by (rule sorted_distinct_set_unique)
  then show ?thesis using SortId_key_inj by (simp only: inj_map_eq_map)
qed

lemma QuerySortIds_ok:
  assumes "sort_Slice_ok srt SortId_less" and "\<forall>i. fv_hm s K i \<noteq> Some Corrupt"
  shows "QuerySortIds srt K bm s = (Inr (sorted_batch (fv_hm s K) bm), s)"
proof -
  have "map (\<lambda>(i, fv). \<lparr>SortId_Id = i, SortId_SortKey = fv\<rparr>)
          (zip (sorted_list_of_set bm) (map (fv_of (fv_hm s K)) (sorted_list_of_set bm)))
        = map (\<lambda>i. \<lparr>SortId_Id = i, SortId_SortKey = fv_of (fv_hm s K) i\<rparr>) (sorted_list_of_set bm)"
    by (simp add: zip_map_self comp_def)
  then show ?thesis
    using sort_Slice_unique[OF assms(1), of "sorted_list_of_set bm" "fv_of (fv_hm s K)"]
    by (simp add: QuerySortIds_def Let_def seq_def ret_def RedisFvStore_MGet_eq
          parse_fvs_ok[OF assms(2)] sorted_batch_def)
qed

lemma deliver_append:
  "deliver proc c (xs @ ys) =
     (case deliver proc c xs of (go, c1) \<Rightarrow> if go then deliver proc c1 ys else (False, c1))"
  by (induction xs arbitrary: c) (auto split: prod.splits)

lemma scan_page_ok:
  assumes "sort_Slice_ok srt SortId_less" and "\<forall>i. fv_hm s K i \<noteq> Some Corrupt"
  shows "scan_page srt K baseBm reverse proc bms c s =
           (Inr (deliver proc c
                   (map (\<lambda>bm. if reverse then rev (sorted_batch (fv_hm s K) bm)
                              else sorted_batch (fv_hm s K) bm)
                      (filter (\<lambda>bm. bm \<noteq> {}) (map (\<lambda>b. Bitmap b \<inter> baseBm) bms)))), s)"
proof (induction bms arbitrary: c)
  case Nil
  then show ?case by simp
next
  case (Cons b bms)
  let ?batch = "if reverse then rev (sorted_batch (fv_hm s K) (Bitmap b \<inter> baseBm))
                else sorted_batch (fv_hm s K) (Bitmap b \<inter> baseBm)"
  show ?case
  proof (cases "Bitmap b \<inter> baseBm = {}")
    case True
    then show ?thesis using Cons[of c] by simp
  next
    case False
    obtain go c1 where p: "proc c ?batch = (go, c1)" by (cases "proc c ?batch")
    show ?thesis
    proof (cases go)
      case True
      with False p Cons[of c1] show ?thesis
        by (simp add: Let_def QuerySortIds_ok[OF assms])
    next
      case F: False
      with False p show ?thesis
        by (simp add: Let_def QuerySortIds_ok[OF assms])
    qed
  qed
qed

lemma decode_skbms_ok:
  assumes "\<forall>k. H k \<noteq> Some Corrupt"
  shows "decode_skbms keys (map H keys) = Inr (map (\<lambda>k. \<lparr>SortKey = k, Bitmap = bucket_of H k\<rparr>) keys)"
proof (induction keys)
  case Nil
  then show ?case by simp
next
  case (Cons k keys)
  have "H k \<noteq> Some Corrupt" using assms by simp
  then show ?case using Cons
    by (cases "H k") (auto simp: parseBitmap_def bucket_of_def split: stored.splits)
qed

lemma scan_batches_append:
  "scan_batches H F baseBm reverse (ks @ ks') =
     scan_batches H F baseBm reverse ks @ scan_batches H F baseBm reverse ks'"
  by (simp add: scan_batches_def)

lemma Scan_loop_ok:
  assumes ok: "sort_Slice_ok srt SortId_less"
    and fv: "\<forall>i. fv_hm s K i \<noteq> Some Corrupt"
    and hm: "\<forall>k. skbm_hm s K k \<noteq> Some Corrupt"
  shows "Scan_loop srt K baseBm reverse proc start stop c s =
           (Inr (snd (deliver proc c
                   (scan_batches (skbm_hm s K) (fv_hm s K) baseBm reverse
                      (scan_keys (skbm_zs s K) reverse start stop)))), s)"
  using assms
proof (induction srt K baseBm reverse proc start stop c s rule: Scan_loop.induct)
  case (1 srt K baseBm reverse proc start stop c s)
  show ?case
  proof (cases "start = stop")
    case True
    then show ?thesis
      by (simp add: Scan_loop.simps scan_keys.simps scan_batches_def)
  next
    case False
    define page where "page = zrange (skbm_zs s K) (if reverse then stop else start)
                                (if reverse then start else stop) reverse 100"
    define bms where "bms = map (\<lambda>k. \<lparr>SortKey = k, Bitmap = bucket_of (skbm_hm s K) k\<rparr>) page"
    have sc: "RedisSortKeyBitmapStore_Scan K start stop reverse 100 s = (Inr bms, s)"
      by (simp add: RedisSortKeyBitmapStore_Scan_eq Let_def page_def[symmetric]
            decode_skbms_ok[OF "1.prems"(3)] bms_def)
    show ?thesis
    proof (cases "page = []")
      case True
      then have "bms = []" by (simp add: bms_def)
      then show ?thesis using False True sc
        by (subst Scan_loop.simps, subst scan_keys.simps)
           (simp add: page_def[symmetric] scan_batches_def)
    next
      case ne: False
      then have bne: "bms \<noteq> []" "length bms \<noteq> 0" by (simp_all add: bms_def)
      have lastk: "SortKey (bms ! (length bms - 1)) = last page"
        using ne by (simp add: bms_def last_conv_nth)
      let ?B = "scan_batches (skbm_hm s K) (fv_hm s K) baseBm reverse page"
      have pg: "scan_page srt K baseBm reverse proc bms c s = (Inr (deliver proc c ?B), s)"
        by (simp add: scan_page_ok[OF "1.prems"(1,2)] bms_def scan_batches_def comp_def)
      obtain go c1 where d: "deliver proc c ?B = (go, c1)" by (cases "deliver proc c ?B")
      have keys: "scan_keys (skbm_zs s K) reverse start stop =
                    page @ scan_keys (skbm_zs s K) reverse (next_start reverse stop (last page)) stop"
        using False ne by (subst scan_keys.simps) (simp add: page_def[symmetric] Let_def)
      show ?thesis
      proof (cases go)
        case True
        have ih: "Scan_loop srt K baseBm reverse proc (next_start reverse stop (last page)) stop c1 s =
           (Inr (snd (deliver proc c1
                   (scan_batches (skbm_hm s K) (fv_hm s K) baseBm reverse
                      (scan_keys (skbm_zs s K) reverse (next_start reverse stop (last page)) stop)))), s)"
          using "1.IH"[OF False sc[symmetric] refl _ pg[unfolded d, symmetric] refl refl _ "1.prems"]
            bne True lastk by simp
        show ?thesis
          using False sc bne pg d True ih lastk
          by (subst Scan_loop.simps)
             (simp add: keys scan_batches_append deliver_append)
      next
        case F: False
        show ?thesis
          using False sc bne pg d F
          by (subst Scan_loop.simps)
             (simp add: keys scan_batches_append deliver_append)
      qed
    qed
  qed
qed

subsection \<open>Insertion sort meets the contract of sort.Slice\<close>

lemma mset_insert_sorted: "mset (insert_sorted lt x ys) = add_mset x (mset ys)"
  by (induction ys) auto

lemma set_insert_sorted: "set (insert_sorted lt x ys) = insert x (set ys)"
  by (induction ys) auto

lemma sorted_insert_sorted:
  fixes g :: "'a \<Rightarrow> 'k::linorder"
  assumes "\<And>a b. lt a b \<longleftrightarrow> g a < g b" and "sorted (map g ys)"
  shows "sorted (map g (insert_sorted lt x ys))"
  using assms(2)
proof (induction ys)
  case Nil
  then show ?case by simp
next
  case (Cons y ys)
  then show ?case
    by (auto simp: assms(1) set_insert_sorted not_less)
qed

lemma foldl_insert_sorted:
  fixes g :: "'a \<Rightarrow> 'k::linorder"
  assumes "\<And>a b. lt a b \<longleftrightarrow> g a < g b" and "sorted (map g acc)"
  shows "mset (foldl (\<lambda>acc x. insert_sorted lt x acc) acc xs) = mset acc + mset xs \<and>
         sorted (map g (foldl (\<lambda>acc x. insert_sorted lt x acc) acc xs))"
  using assms(2)
proof (induction xs arbitrary: acc)
  case Nil
  then show ?case by simp
next
  case (Cons x xs)
  have "sorted (map g (insert_sorted lt x acc))"
    using assms(1) Cons.prems by (rule sorted_insert_sorted)
  from Cons.IH[OF this] show ?case by (simp add: mset_insert_sorted)
qed

lemma insertion_sort_ok:
  fixes g :: "'a \<Rightarrow> 'k::linorder"
  assumes "\<And>a b. lt a b \<longleftrightarrow> g a < g b"
  shows "sort_Slice_ok insertion_sort lt"
proof -
  have rel: "(\<lambda>a b. \<not> lt b a) = (\<lambda>a b. g a \<le> g b)"
    by (intro ext) (simp add: assms not_less)
  have *: "mset (insertion_sort lt xs) = mset xs \<and> sorted_wrt (\<lambda>a b. \<not> lt b a) (insertion_sort lt xs)" for xs
    using foldl_insert_sorted[of lt g "[]" xs, OF assms]
    unfolding rel insertion_sort_def by (simp add: sorted_map)
  show "sort_Slice_ok insertion_sort lt"
    unfolding sort_Slice_ok_def using * by blast
qed

lemma insertion_sort_SortId: "sort_Slice_ok insertion_sort SortId_less"
  by (rule insertion_sort_ok[of _ SortId_key]) (rule SortId_less_key)


subsection \<open>The keys that the loop reads are in scan order\<close>

lemma unat_minus_one'': "(k::u64) \<noteq> 0 \<Longrightarrow> unat (k - 1) = unat k - 1"
  by (simp add: unat_minus_one)

lemma next_start_fwd: "l < stop \<Longrightarrow> l < next_start False stop l"
proof -
  assume a: "l < stop"
  then have "unat (l + 1) = unat l + 1" by (rule unat_plus_one')
  moreover have "l \<noteq> stop" using a by auto
  ultimately show ?thesis by (simp add: next_start_def word_less_nat_alt)
qed

lemma next_start_rev: "stop < l \<Longrightarrow> next_start True stop l < l"
proof -
  assume a: "stop < l"
  then have "l \<noteq> 0" by auto
  then have "unat (l - 1) = unat l - 1" by (rule unat_minus_one'')
  moreover have "unat l \<noteq> 0" using \<open>l \<noteq> 0\<close> by (simp add: unat_eq_zero)
  moreover have "l \<noteq> stop" using a by auto
  ultimately show ?thesis by (simp add: next_start_def word_less_nat_alt)
qed

lemma scan_keys_range:
  "k \<in> set (scan_keys Z reverse start stop) \<Longrightarrow>
     k \<in> Z \<and> (if reverse then stop \<le> k \<and> k \<le> start else start \<le> k \<and> k \<le> stop)"
proof (induction Z reverse start stop rule: scan_keys.induct)
  case (1 Z reverse start stop)
  define page where "page = zrange Z (if reverse then stop else start)
                              (if reverse then start else stop) reverse 100"
  from "1.prems" have ne: "start \<noteq> stop" "page \<noteq> []"
    by (auto simp: scan_keys.simps[of Z reverse start stop] page_def Let_def split: if_splits)
  from "1.prems" ne have mem: "k \<in> set page \<or>
      k \<in> set (scan_keys Z reverse (next_start reverse stop (last page)) stop)"
    by (auto simp: scan_keys.simps[of Z reverse start stop] page_def[symmetric] Let_def)
  have pr: "x \<in> set page \<Longrightarrow> x \<in> Z \<and>
      (if reverse then stop \<le> x \<and> x \<le> start else start \<le> x \<and> x \<le> stop)" for x
    unfolding page_def by (drule zrange_range) (auto split: if_splits)
  from mem show ?case
  proof
    assume "k \<in> set page" then show ?thesis by (rule pr)
  next
    assume r: "k \<in> set (scan_keys Z reverse (next_start reverse stop (last page)) stop)"
    have lp: "last page \<in> set page" using ne by simp
    note l = pr[OF lp]
    have ih: "k \<in> Z \<and> (if reverse then stop \<le> k \<and> k \<le> next_start reverse stop (last page)
                          else next_start reverse stop (last page) \<le> k \<and> k \<le> stop)"
      using "1.IH"[OF ne(1) page_def ne(2) r] .
    show ?thesis
    proof (cases "last page = stop")
      case True
      then show ?thesis using ih l by (auto simp: next_start_def split: if_splits)
    next
      case False
      show ?thesis
      proof (cases reverse)
        case True
        then have "stop < last page" using l False by auto
        from next_start_rev[OF this] ih l True show ?thesis by auto
      next
        case F: False
        then have "last page < stop" using l False by auto
        from next_start_fwd[OF this] ih l F show ?thesis by auto
      qed
    qed
  qed
qed

lemma zrange_sorted:
  "sorted_wrt (\<lambda>a b. if rev_order then b < a else a < b) (zrange Z lo hi rev_order cnt)"
proof -
  let ?xs = "sorted_list_of_set {k \<in> Z. lo \<le> k \<and> k \<le> hi}"
  have s: "sorted_wrt (<) ?xs" by (simp add: strict_sorted_iff)
  then have r: "sorted_wrt (\<lambda>a b. b < a) (rev ?xs)" by (simp add: sorted_wrt_rev)
  have t: "sorted_wrt P (take n ys)" if "sorted_wrt P ys" for P n and ys :: "u64 list"
    using that by (metis append_take_drop_id sorted_wrt_append)
  show ?thesis
    using s r t[OF s] t[OF r] by (simp add: zrange_def Let_def)
qed

lemma sorted_wrt_last:
  assumes "sorted_wrt P xs" "x \<in> set xs" "x \<noteq> last xs"
  shows "P x (last xs)"
proof -
  from assms(2) obtain i where i: "i < length xs" "xs ! i = x" by (auto simp: in_set_conv_nth)
  have ne: "xs \<noteq> []" using assms(2) by auto
  then have l: "last xs = xs ! (length xs - 1)" by (simp add: last_conv_nth)
  have "i \<noteq> length xs - 1" using assms(3) i l by auto
  then have "i < length xs - 1" using i(1) by simp
  moreover have "length xs - 1 < length xs" using ne by simp
  ultimately have "P (xs ! i) (xs ! (length xs - 1))"
    using assms(1) by (rule sorted_wrt_nth_less[rotated])
  then show ?thesis using i l by simp
qed

lemma scan_keys_sorted:
  "sorted_wrt (\<lambda>a b. if reverse then b < a else a < b) (scan_keys Z reverse start stop)"
proof (induction Z reverse start stop rule: scan_keys.induct)
  case (1 Z reverse start stop)
  define page where "page = zrange Z (if reverse then stop else start)
                              (if reverse then start else stop) reverse 100"
  let ?P = "\<lambda>a b. if reverse then b < a else a < b"
  show ?case
  proof (cases "start = stop \<or> page = []")
    case True
    then show ?thesis
      by (auto simp: scan_keys.simps[of Z reverse start stop] page_def[symmetric] Let_def)
  next
    case False
    then have ne: "start \<noteq> stop" "page \<noteq> []" by auto
    let ?rest = "scan_keys Z reverse (next_start reverse stop (last page)) stop"
    have eq: "scan_keys Z reverse start stop = page @ ?rest"
      using ne by (simp add: scan_keys.simps[of Z reverse start stop] page_def[symmetric] Let_def)
    have sp: "sorted_wrt ?P page" unfolding page_def by (rule zrange_sorted)
    have sr: "sorted_wrt ?P ?rest" using "1.IH"[OF ne(1) page_def ne(2)] .
    have lp: "last page \<in> set page" using ne by simp
    have lr: "(if reverse then stop \<le> last page else last page \<le> stop)"
      using zrange_range[of "last page"] lp unfolding page_def by (auto split: if_splits)
    have beyond: "?P (last page) y" if y: "y \<in> set ?rest" for y
    proof (cases "last page = stop")
      case True
      then have "?rest = []" by (simp add: next_start_def scan_keys.simps[of Z reverse stop stop])
      with y show ?thesis by simp
    next
      case F: False
      note yr = scan_keys_range[OF y]
      show ?thesis
      proof (cases reverse)
        case True
        then have "stop < last page" using lr F by auto
        from next_start_rev[OF this] yr True show ?thesis by auto
      next
        case R: False
        then have "last page < stop" using lr F by auto
        from next_start_fwd[OF this] yr R show ?thesis by auto
      qed
    qed
    have cross: "?P x y" if x: "x \<in> set page" and y: "y \<in> set ?rest" for x y
    proof (cases "x = last page")
      case True
      then show ?thesis using beyond[OF y] by simp
    next
      case False
      from sorted_wrt_last[OF sp x False] beyond[OF y] show ?thesis
        by (auto split: if_splits)
    qed
    have "\<forall>x\<in>set page. \<forall>y\<in>set ?rest. ?P x y" using cross by blast
    then show ?thesis unfolding eq using sp sr by (simp only: sorted_wrt_append)
  qed
qed

subsection \<open>The loop reads every key but, at most, the one at the end of the range\<close>

lemma le_next_start_fwd: "l < k \<Longrightarrow> k \<le> stop \<Longrightarrow> next_start False stop l \<le> (k::u64)"
proof -
  assume a: "l < k" "k \<le> stop"
  then have "unat (l + 1) = unat l + 1" by (intro unat_plus_one'[of l k])
  moreover have "l \<noteq> stop" using a by auto
  ultimately show ?thesis using a by (simp add: next_start_def word_less_nat_alt word_le_nat_alt)
qed

lemma le_next_start_rev: "k < l \<Longrightarrow> stop \<le> k \<Longrightarrow> (k::u64) \<le> next_start True stop l"
proof -
  assume a: "k < l" "stop \<le> k"
  then have "l \<noteq> 0" by auto
  then have "unat (l - 1) = unat l - 1" by (rule unat_minus_one'')
  moreover have "l \<noteq> stop" using a by auto
  ultimately show ?thesis using a by (simp add: next_start_def word_less_nat_alt word_le_nat_alt)
qed

lemma take_or_beyond:
  assumes s: "sorted_wrt P xs" and k: "k \<in> set xs" and c: "0 < cnt"
  shows "take cnt xs \<noteq> [] \<and> (k \<in> set (take cnt xs) \<or> P (last (take cnt xs)) k)"
proof -
  have ne: "take cnt xs \<noteq> []" using k c by (cases xs) auto
  have "sorted_wrt P (take cnt xs @ drop cnt xs)" using s by simp
  then have cross: "\<forall>x\<in>set (take cnt xs). \<forall>y\<in>set (drop cnt xs). P x y"
    unfolding sorted_wrt_append by blast
  have "set xs = set (take cnt xs) \<union> set (drop cnt xs)"
    by (metis append_take_drop_id set_append)
  then have "k \<in> set (take cnt xs) \<or> k \<in> set (drop cnt xs)" using k by blast
  moreover have "last (take cnt xs) \<in> set (take cnt xs)" using ne by (rule last_in_set)
  ultimately show ?thesis using cross ne by blast
qed

lemma zrange_page_or_beyond:
  assumes "k \<in> Z" "lo \<le> k" "k \<le> hi" "0 < cnt"
  shows "zrange Z lo hi rev_order cnt \<noteq> [] \<and>
         (k \<in> set (zrange Z lo hi rev_order cnt) \<or>
          (if rev_order then k < last (zrange Z lo hi rev_order cnt)
           else last (zrange Z lo hi rev_order cnt) < k))"
proof -
  let ?A = "{k \<in> Z. lo \<le> k \<and> k \<le> hi}"
  have kA: "k \<in> set (sorted_list_of_set ?A)" using assms(1,2,3) by simp
  have s: "sorted_wrt (<) (sorted_list_of_set ?A)" by (simp add: strict_sorted_iff)
  show ?thesis
  proof (cases rev_order)
    case True
    have z: "zrange Z lo hi rev_order cnt = take cnt (rev (sorted_list_of_set ?A))"
      using assms(4) True by (simp add: zrange_def Let_def)
    have r: "sorted_wrt (\<lambda>a b. b < a) (rev (sorted_list_of_set ?A))"
      using s by (simp only: sorted_wrt_rev)
    have kr: "k \<in> set (rev (sorted_list_of_set ?A))" using kA by simp
    from take_or_beyond[OF r kr assms(4)] True show ?thesis unfolding z by simp
  next
    case False
    have z: "zrange Z lo hi rev_order cnt = take cnt (sorted_list_of_set ?A)"
      using assms(4) False by (simp add: zrange_def Let_def)
    from take_or_beyond[OF s kA assms(4)] False show ?thesis unfolding z by simp
  qed
qed

lemma scan_keys_complete:
  assumes "k \<in> Z" "k \<noteq> stop"
    and "if reverse then stop \<le> k \<and> k \<le> start else start \<le> k \<and> k \<le> stop"
  shows "k \<in> set (scan_keys Z reverse start stop)"
  using assms
proof (induction Z reverse start stop rule: scan_keys.induct)
  case (1 Z reverse start stop)
  define page where "page = zrange Z (if reverse then stop else start)
                              (if reverse then start else stop) reverse 100"
  have ne: "start \<noteq> stop" using "1.prems" by (auto split: if_splits)
  have "page \<noteq> [] \<and> (k \<in> set page \<or> (if reverse then k < last page else last page < k))"
    unfolding page_def using "1.prems"
    by (intro zrange_page_or_beyond) (auto split: if_splits)
  then have pne: "page \<noteq> []"
    and alt: "k \<in> set page \<or> (if reverse then k < last page else last page < k)" by auto
  have eq: "scan_keys Z reverse start stop =
              page @ scan_keys Z reverse (next_start reverse stop (last page)) stop"
    using ne pne by (simp add: scan_keys.simps[of Z reverse start stop] page_def[symmetric] Let_def)
  from alt show ?case
  proof
    assume "k \<in> set page" then show ?thesis by (simp add: eq)
  next
    assume b: "if reverse then k < last page else last page < k"
    have "if reverse then stop \<le> k \<and> k \<le> next_start reverse stop (last page)
          else next_start reverse stop (last page) \<le> k \<and> k \<le> stop"
    proof (cases reverse)
      case True
      with b "1.prems" le_next_start_rev[of k "last page" stop] show ?thesis by auto
    next
      case False
      with b "1.prems" le_next_start_fwd[of "last page" k stop] show ?thesis by auto
    qed
    from "1.IH"[OF ne page_def pne "1.prems"(1,2) this] show ?thesis by (simp add: eq)
  qed
qed

lemma u64_max: "(k::u64) \<le> 0xFFFFFFFFFFFFFFFF"
proof -
  have "(0xFFFFFFFFFFFFFFFF :: u64) = - 1" by simp
  then show ?thesis by (simp only: word_order.extremum)
qed

text \<open>
  Let the sort routine meet the contract of \<open>sort.Slice\<close> and let the buckets and forward
  values of the index decode. Then \<open>Scan\<close> returns no error and leaves the server as it is,
  and what the callback has seen is \<open>deliver\<close> on \<open>scan_batches\<close> of the keys read: the
  callback is called on one batch per bucket read whose intersection with the base bitmap is
  not empty, the batch holding the ids of the intersection ascending by (forward value, id),
  reversed for a reverse scan, and no call follows one that returned false. The keys read
  are bucket keys in strictly ascending order, strictly descending for a reverse scan, and
  they are all the bucket keys with the possible exception of the last key of the range
  (0 for a reverse scan, the greatest \<open>uint64\<close> otherwise).
\<close>

lemma Scan_reads:
  assumes "sort_Slice_ok srt SortId_less"
    and "\<forall>i. fv_hm s (MakeIndexKey (SparseU64IndexReader_Index r)) i \<noteq> Some Corrupt"
    and "\<forall>k. skbm_hm s (MakeIndexKey (SparseU64IndexReader_Index r)) k \<noteq> Some Corrupt"
    and "K = MakeIndexKey (SparseU64IndexReader_Index r)"
    and "ks = scan_keys (skbm_zs s K) reverse (if reverse then 0xFFFFFFFFFFFFFFFF else 0)
                 (if reverse then 0 else 0xFFFFFFFFFFFFFFFF)"
  shows "SparseU64IndexReader_Scan srt r baseBm reverse proc c s =
           (Inr (snd (deliver proc c (scan_batches (skbm_hm s K) (fv_hm s K) baseBm reverse ks))), s) \<and>
         sorted_wrt (\<lambda>a b. if reverse then b < a else a < b) ks \<and>
         skbm_zs s K - {if reverse then 0 else 0xFFFFFFFFFFFFFFFF} \<subseteq> set ks \<and> set ks \<subseteq> skbm_zs s K \<and>
         (\<forall>bm. SortId_Id ` set (sorted_batch (fv_hm s K) bm) = bm \<and>
               sorted (map SortId_key (sorted_batch (fv_hm s K) bm)) \<and>
               (\<forall>a \<in> set (sorted_batch (fv_hm s K) bm). SortId_SortKey a = fv_of (fv_hm s K) (SortId_Id a)))"
proof -
  have run: "SparseU64IndexReader_Scan srt r baseBm reverse proc c s =
           (Inr (snd (deliver proc c (scan_batches (skbm_hm s K) (fv_hm s K) baseBm reverse ks))), s)"
    unfolding SparseU64IndexReader_Scan_def assms(4,5)
    using Scan_loop_ok[OF assms(1,2,3), of baseBm reverse proc
        "if reverse then 0xFFFFFFFFFFFFFFFF else 0" "if reverse then 0 else 0xFFFFFFFFFFFFFFFF" c]
    by simp
  have ord: "sorted_wrt (\<lambda>a b. if reverse then b < a else a < b) ks"
    unfolding assms(5) by (rule scan_keys_sorted)
  have sub: "set ks \<subseteq> skbm_zs s K"
    unfolding assms(5) using scan_keys_range by blast
  have all: "skbm_zs s K - {if reverse then 0 else 0xFFFFFFFFFFFFFFFF} \<subseteq> set ks"
  proof
    fix k assume k: "k \<in> skbm_zs s K - {if reverse then 0 else 0xFFFFFFFFFFFFFFFF}"
    have "k \<le> 0xFFFFFFFFFFFFFFFF" by (rule u64_max)
    then show "k \<in> set ks"
      unfolding assms(5)
      by (intro scan_keys_complete) (use k in \<open>auto split: if_splits\<close>)
  qed
  have batch: "SortId_Id ` set (sorted_batch F bm) = bm \<and>
               sorted (map SortId_key (sorted_batch F bm)) \<and>
               (\<forall>a \<in> set (sorted_batch F bm). SortId_SortKey a = fv_of F (SortId_Id a))" for F bm
  proof -
    have key: "map SortId_key (sorted_batch F bm) =
                 map (\<lambda>i. (fv_of F i, i)) (sort_key (\<lambda>i. (fv_of F i, i)) (sorted_list_of_set bm))"
      by (simp add: sorted_batch_def comp_def SortId_key_def)
    have "SortId_Id ` set (sorted_batch F bm) = bm"
      by (simp add: sorted_batch_def image_image)
    moreover have "sorted (map SortId_key (sorted_batch F bm))" unfolding key by simp
    moreover have "\<forall>a \<in> set (sorted_batch F bm). SortId_SortKey a = fv_of F (SortId_Id a)"
      by (auto simp: sorted_batch_def)
    ultimately show ?thesis by blast
  qed
  show ?thesis using run ord sub all batch by blast
qed


lemma demo_reader_key: "MakeIndexKey (SparseU64IndexReader_Index demo_reader) = ''sparse:orders:create_time''"
  by (simp add: demo_reader_def MakeIndexKey_def)

lemma demo_buckets_keys:
  "scan_keys {10, 20} True 0xFFFFFFFFFFFFFFFF 0 = [20, 10]"
proof -
  have a: "{k \<in> {10, 20 :: u64}. 0 \<le> k \<and> k \<le> 0xFFFFFFFFFFFFFFFF} = {10, 20}"
    using u64_max by auto
  have p1: "zrange {10, 20} 0 0xFFFFFFFFFFFFFFFF True 100 = [20, 10]"
    unfolding zrange_def Let_def a by simp
  have b: "{k \<in> {10, 20 :: u64}. 0 \<le> k \<and> k \<le> 9} = {}"
    by (auto simp: word_le_nat_alt)
  have p2: "zrange {10, 20} 0 9 True 100 = []"
    unfolding zrange_def Let_def b by simp
  have n: "next_start True 0 (10 :: u64) = 9" by (simp add: next_start_def)
  have r: "scan_keys {10, 20} True 9 0 = []"
    by (subst scan_keys.simps) (simp add: p2)
  show ?thesis
    by (subst scan_keys.simps) (simp add: p1 n r)
qed

lemma demo_buckets_batches:
  "scan_batches (skbm_hm demo_buckets ''sparse:orders:create_time'')
     (fv_hm demo_buckets ''sparse:orders:create_time'') {1, 2, 3} True [20, 10] =
   [[\<lparr>SortId_Id = 3, SortId_SortKey = 20\<rparr>],
    [\<lparr>SortId_Id = 2, SortId_SortKey = 10\<rparr>, \<lparr>SortId_Id = 1, SortId_SortKey = 10\<rparr>]]"
proof -
  have i1: "{3} \<inter> {1, 2, 3 :: u32} = {3}" by auto
  have i2: "{1, 2} \<inter> {1, 2, 3 :: u32} = {1, 2}" by auto
  show ?thesis
    by (simp add: scan_batches_def bucket_of_def demo_buckets_def empty_redis_def i1 i2
          sorted_batch_def fv_of_def)
qed

lemma demo_buckets_Scan:
  "sort_Slice_ok insertion_sort SortId_less \<and>
   (\<forall>i. fv_hm demo_buckets (MakeIndexKey (SparseU64IndexReader_Index demo_reader)) i \<noteq> Some Corrupt) \<and>
   (\<forall>k. skbm_hm demo_buckets (MakeIndexKey (SparseU64IndexReader_Index demo_reader)) k \<noteq> Some Corrupt) \<and>
   SparseU64IndexReader_Scan insertion_sort demo_reader {1, 2, 3} True (list_proc None) [] demo_buckets =
     (Inr [3, 2, 1], demo_buckets)"
proof -
  have fv: "\<forall>i. fv_hm demo_buckets (MakeIndexKey (SparseU64IndexReader_Index demo_reader)) i \<noteq> Some Corrupt"
    by (simp add: demo_reader_key demo_buckets_def empty_redis_def)
  have hm: "\<forall>k. skbm_hm demo_buckets (MakeIndexKey (SparseU64IndexReader_Index demo_reader)) k \<noteq> Some Corrupt"
    by (simp add: demo_reader_key demo_buckets_def empty_redis_def)
  have zs: "skbm_zs demo_buckets ''sparse:orders:create_time'' = {10, 20}"
    by (simp add: demo_buckets_def empty_redis_def)
  have ks: "[20, 10] = scan_keys (skbm_zs demo_buckets ''sparse:orders:create_time'') True
              (if True then 0xFFFFFFFFFFFFFFFF else 0) (if True then 0 else 0xFFFFFFFFFFFFFFFF)"
    by (simp add: zs demo_buckets_keys)
  from Scan_reads[OF insertion_sort_SortId fv hm demo_reader_key[symmetric] ks,
      of "{1, 2, 3}" "list_proc None" "[]"]
  have "SparseU64IndexReader_Scan insertion_sort demo_reader {1, 2, 3} True (list_proc None) [] demo_buckets =
     (Inr [3, 2, 1], demo_buckets)"
    by (simp add: demo_buckets_batches)
  with insertion_sort_SortId fv hm show ?thesis by blast
qed

section \<open>Claim C5: the provider_id filter of List\<close>

lemma Service_keys:
  "GetIndexKey (TermIndexReader_Index (AllIndexReader NewOrdersSearchService)) = ''term:orders:__all''"
  "MakeIndexKey (SparseU64IndexReader_Index (CreateTimeIndexReader NewOrdersSearchService)) = ''sparse:orders:create_time''"
  by (simp_all add: NewOrdersSearchService_def GetIndexKey_def MakeIndexKey_def)

lemma list_proc_ids:
  "set (snd (list_proc lim acc xs)) \<subseteq> set acc \<union> SortId_Id ` set xs"
proof (induction xs arbitrary: acc)
  case Nil
  then show ?case by simp
next
  case (Cons a xs)
  have "set (snd (list_proc lim (acc @ [SortId_Id a]) xs))
          \<subseteq> set (acc @ [SortId_Id a]) \<union> SortId_Id ` set xs"
    by (rule Cons.IH)
  then show ?case by (auto simp: Let_def split: option.splits)
qed

lemma QuerySortIds_ids:
  assumes ok: "sort_Slice_ok srt SortId_less"
    and q: "QuerySortIds srt K bm s = (Inr sortedIds, s1)"
  shows "SortId_Id ` set sortedIds \<subseteq> bm"
proof -
  from q obtain fvs where
    so: "sortedIds = srt SortId_less (map (\<lambda>(i, fv). \<lparr>SortId_Id = i, SortId_SortKey = fv\<rparr>)
                        (zip (sorted_list_of_set bm) fvs))"
    by (auto simp: QuerySortIds_def Let_def seq_def ret_def RedisFvStore_MGet_eq split: sum.splits)
  have "mset sortedIds = mset (map (\<lambda>(i, fv). \<lparr>SortId_Id = i, SortId_SortKey = fv\<rparr>)
                        (zip (sorted_list_of_set bm) fvs))"
    unfolding so using ok by (simp add: sort_Slice_ok_def)
  then have "set sortedIds = set (map (\<lambda>(i, fv). \<lparr>SortId_Id = i, SortId_SortKey = fv\<rparr>)
                        (zip (sorted_list_of_set bm) fvs))"
    by (rule mset_eq_setD)
  then show ?thesis by (auto dest: set_zip_leftD)
qed

lemma scan_page_ids:
  assumes ok: "sort_Slice_ok srt SortId_less"
    and p: "scan_page srt K baseBm reverse (list_proc lim) bms c s = (Inr (go, c1), s1)"
  shows "set c1 \<subseteq> set c \<union> baseBm"
  using p
proof (induction bms arbitrary: c)
  case Nil
  then show ?case by simp
next
  case (Cons b bms)
  show ?case
  proof (cases "card (Bitmap b \<inter> baseBm) = 0")
    case True
    with Cons show ?thesis by (simp add: Let_def)
  next
    case False
    from Cons.prems False obtain sortedIds s2 where
      q: "QuerySortIds srt K (Bitmap b \<inter> baseBm) s = (Inr sortedIds, s2)"
      by (auto simp: Let_def split: prod.splits sum.splits)
    let ?batch = "if reverse then rev sortedIds else sortedIds"
    obtain g c2 where pr: "list_proc lim c ?batch = (g, c2)" by (cases "list_proc lim c ?batch")
    have "s2 = s" using QuerySortIds_state[of srt K "Bitmap b \<inter> baseBm" s] q by simp
    have ids: "SortId_Id ` set ?batch \<subseteq> baseBm"
      using QuerySortIds_ids[OF ok q] by auto
    have c2: "set c2 \<subseteq> set c \<union> baseBm"
      using list_proc_ids[of lim c ?batch] pr ids by auto
    show ?thesis
    proof (cases g)
      case True
      with Cons.prems False q pr \<open>s2 = s\<close>
      have "scan_page srt K baseBm reverse (list_proc lim) bms c2 s = (Inr (go, c1), s1)"
        by (simp add: Let_def)
      from Cons.IH[OF this] c2 show ?thesis by blast
    next
      case F: False
      with Cons.prems False q pr have "c1 = c2" by (simp add: Let_def)
      with c2 show ?thesis by simp
    qed
  qed
qed

lemma Scan_loop_ids:
  assumes ok: "sort_Slice_ok srt SortId_less"
    and r: "Scan_loop srt K baseBm reverse (list_proc lim) start stop c s = (Inr c1, s1)"
  shows "set c1 \<subseteq> set c \<union> baseBm"
  using ok r
proof (induction srt K baseBm reverse "list_proc lim" start stop c s rule: Scan_loop.induct)
  case (1 srt K baseBm reverse start stop c s)
  show ?case
  proof (cases "start = stop")
    case True
    with "1.prems" show ?thesis by (simp add: Scan_loop.simps)
  next
    case False
    obtain r0 s0 where sc: "RedisSortKeyBitmapStore_Scan K start stop reverse 100 s = (r0, s0)"
      by (cases "RedisSortKeyBitmapStore_Scan K start stop reverse 100 s")
    show ?thesis
    proof (cases r0)
      case (Inl e)
      with "1.prems" False sc show ?thesis by (subst (asm) Scan_loop.simps) simp
    next
      case (Inr bms)
      show ?thesis
      proof (cases "length bms = 0")
        case True
        with "1.prems" False sc Inr show ?thesis by (subst (asm) Scan_loop.simps) simp
      next
        case ne: False
        obtain r2 s2 where pg: "scan_page srt K baseBm reverse (list_proc lim) bms c s0 = (r2, s2)"
          by (cases "scan_page srt K baseBm reverse (list_proc lim) bms c s0")
        show ?thesis
        proof (cases r2)
          case (Inl e)
          with "1.prems" False sc \<open>r0 = Inr bms\<close> ne pg show ?thesis
            by (subst (asm) Scan_loop.simps) simp
        next
          case R: (Inr gc)
          obtain go c2 where gc: "gc = (go, c2)" by (cases gc)
          have c2: "set c2 \<subseteq> set c \<union> baseBm"
            using scan_page_ids[OF "1.prems"(1)] pg R gc by blast
          show ?thesis
          proof (cases go)
            case True
            have "Scan_loop srt K baseBm reverse (list_proc lim)
                    (next_start reverse stop (SortKey (bms ! (length bms - 1)))) stop c2 s2 = (Inr c1, s1)"
              using "1.prems"(2) False sc \<open>r0 = Inr bms\<close> ne pg R gc True
              by (subst (asm) Scan_loop.simps) simp
            from "1.hyps"[OF False sc[symmetric] \<open>r0 = Inr bms\<close> ne pg[symmetric] R gc[symmetric] _
                  "1.prems"(1) this] True c2
            show ?thesis by auto
          next
            case F: False
            have "c1 = c2"
              using "1.prems"(2) False sc \<open>r0 = Inr bms\<close> ne pg R gc F
              by (subst (asm) Scan_loop.simps) simp
            with c2 show ?thesis by simp
          qed
        qed
      qed
    qed
  qed
qed


lemma List_on_accBm:
  assumes "List_accBm svc r s = (Inr X, s)"
  shows "OrdersSearchService_List srt svc r s =
           (if Limit r = Some 0 \<or> X = {} then (Inr \<lparr>IDs = [], Total = card X\<rparr>, s)
            else seq (SparseU64IndexReader_Scan srt (CreateTimeIndexReader svc) X True
                        (list_proc (Limit r)) [])
                   (\<lambda>resultIds. ret \<lparr>IDs = resultIds, Total = card X\<rparr>) s)"
  using assms by (simp add: OrdersSearchService_List_def seq_def ret_def)

lemma List_ids:
  assumes acc: "List_accBm svc r s = (Inr X, s)"
    and run: "OrdersSearchService_List srt svc r s = (Inr resp, s')"
  shows "Total resp = card X \<and> (sort_Slice_ok srt SortId_less \<longrightarrow> set (IDs resp) \<subseteq> X)"
proof (cases "Limit r = Some 0 \<or> X = {}")
  case True
  with run List_on_accBm[OF acc, of srt] show ?thesis by auto
next
  case False
  with run List_on_accBm[OF acc, of srt]
  have sq: "seq (SparseU64IndexReader_Scan srt (CreateTimeIndexReader svc) X True
                        (list_proc (Limit r)) [])
                   (\<lambda>resultIds. ret \<lparr>IDs = resultIds, Total = card X\<rparr>) s = (Inr resp, s')"
    by simp
  then obtain ids s1 where
    sc: "SparseU64IndexReader_Scan srt (CreateTimeIndexReader svc) X True (list_proc (Limit r)) [] s
           = (Inr ids, s1)"
    and resp: "resp = \<lparr>IDs = ids, Total = card X\<rparr>"
    by (auto simp: seq_def ret_def split: prod.splits sum.splits)
  have "set ids \<subseteq> X" if "sort_Slice_ok srt SortId_less"
    using Scan_loop_ids[OF that sc[unfolded SparseU64IndexReader_Scan_def]] by simp
  with resp show ?thesis by simp
qed

text \<open>
  Claim C5. Take a request with a provider_id filter, let \<open>A\<close> be the accumulator that the
  same request without that filter yields, and let \<open>P\<close> be the bitmap stored in the
  provider_id term hash under the field \<open>null\<close>. A nil \<open>*int64\<close> is rendered as the value
  key \<open>null\<close>. Let \<open>X\<close> be \<open>A - P\<close> in mode notNull and \<open>A \<inter> P\<close> in mode null. Then \<open>X\<close> is
  the accumulator of \<open>List\<close> when it reads the total, and \<open>List\<close> answers as the rest of its
  body does on \<open>X\<close>: the empty list with the total \<open>card X\<close> when the limit is zero or \<open>X\<close>
  is empty, and otherwise the ids that \<open>Scan\<close> delivers for the base bitmap \<open>X\<close>, with the
  total \<open>card X\<close>. Whatever response \<open>List\<close> returns, its total is \<open>card X\<close> and, the sort
  routine meeting the contract of \<open>sort.Slice\<close>, its ids are members of \<open>X\<close>. In mode null
  the accumulator is computed by the step \<open>and_Get\<close> on the nil pointer, and in mode eq by
  the same step on the pointer to the value.
\<close>

theorem List_provider_id_filter:
  assumes f: "ProviderIDFilter r = Some f"
    and A: "List_accBm svc (r\<lparr>ProviderIDFilter := None\<rparr>) s = (Inr A, s)"
    and P: "parseBitmap (bm_hm s (GetIndexKey (TermIndexReader_Index (ProviderIdIndexReader svc))) ''null'') = Inr P"
  shows "MakeValueKey (PtrInt64 None) = ''null'' \<and>
         (\<forall>X. Mode f = FilterModeNotNull \<and> X = A - P \<or> Mode f = FilterModeNull \<and> X = A \<inter> P \<longrightarrow>
            List_accBm svc r s = (Inr X, s) \<and>
            OrdersSearchService_List srt svc r s =
              (if Limit r = Some 0 \<or> X = {} then (Inr \<lparr>IDs = [], Total = card X\<rparr>, s)
               else seq (SparseU64IndexReader_Scan srt (CreateTimeIndexReader svc) X True
                           (list_proc (Limit r)) [])
                      (\<lambda>resultIds. ret \<lparr>IDs = resultIds, Total = card X\<rparr>) s) \<and>
            (\<forall>resp s'. OrdersSearchService_List srt svc r s = (Inr resp, s') \<longrightarrow>
               Total resp = card X \<and>
               (sort_Slice_ok srt SortId_less \<longrightarrow> set (IDs resp) \<subseteq> X))) \<and>
         (Mode f = FilterModeNull \<longrightarrow>
            List_accBm svc r s = seq (List_accBm svc (r\<lparr>ProviderIDFilter := None\<rparr>))
                                   (and_Get (ProviderIdIndexReader svc) (PtrInt64 None)) s) \<and>
         (Mode f = FilterModeEq \<longrightarrow>
            List_accBm svc r s = seq (List_accBm svc (r\<lparr>ProviderIDFilter := None\<rparr>))
                                   (and_Get (ProviderIdIndexReader svc) (PtrInt64 (Some (Value f)))) s)"
proof -
  have nn: "List_accBm svc r s = (Inr (A - P), s)" if "Mode f = FilterModeNotNull"
    using f A P that
    by (auto simp: List_accBm_def seq_def ret_def and_Get_eq andNot_Get_eq TermIndexReader_Get_eq
          FilterModeEq_def FilterModeNull_def FilterModeNotNull_def
        split: sum.splits option.splits prod.splits)
  have nl: "List_accBm svc r s = (Inr (A \<inter> P), s)" if "Mode f = FilterModeNull"
    using f A P that
    by (auto simp: List_accBm_def seq_def ret_def and_Get_eq andNot_Get_eq TermIndexReader_Get_eq
          FilterModeEq_def FilterModeNull_def FilterModeNotNull_def
        split: sum.splits option.splits prod.splits)
  have acc: "List_accBm svc r s = (Inr X, s)"
    if "Mode f = FilterModeNotNull \<and> X = A - P \<or> Mode f = FilterModeNull \<and> X = A \<inter> P" for X
    using that nn nl by blast
  have step: "List_accBm svc r s = seq (List_accBm svc (r\<lparr>ProviderIDFilter := None\<rparr>))
                                   (and_Get (ProviderIdIndexReader svc) (PtrInt64 None)) s"
    if "Mode f = FilterModeNull"
    using f A that
    by (auto simp: List_accBm_def seq_def ret_def FilterModeEq_def FilterModeNull_def
        split: sum.splits option.splits prod.splits)
  have eq: "List_accBm svc r s = seq (List_accBm svc (r\<lparr>ProviderIDFilter := None\<rparr>))
                                   (and_Get (ProviderIdIndexReader svc) (PtrInt64 (Some (Value f)))) s"
    if "Mode f = FilterModeEq"
    using f A that
    by (auto simp: List_accBm_def seq_def ret_def FilterModeEq_def FilterModeNull_def
        split: sum.splits option.splits prod.splits)
  have key: "MakeValueKey (PtrInt64 None) = ''null''" by simp
  have main: "List_accBm svc r s = (Inr X, s) \<and>
            OrdersSearchService_List srt svc r s =
              (if Limit r = Some 0 \<or> X = {} then (Inr \<lparr>IDs = [], Total = card X\<rparr>, s)
               else seq (SparseU64IndexReader_Scan srt (CreateTimeIndexReader svc) X True
                           (list_proc (Limit r)) [])
                      (\<lambda>resultIds. ret \<lparr>IDs = resultIds, Total = card X\<rparr>) s) \<and>
            (\<forall>resp s'. OrdersSearchService_List srt svc r s = (Inr resp, s') \<longrightarrow>
               Total resp = card X \<and>
               (sort_Slice_ok srt SortId_less \<longrightarrow> set (IDs resp) \<subseteq> X))"
    if x: "Mode f = FilterModeNotNull \<and> X = A - P \<or> Mode f = FilterModeNull \<and> X = A \<inter> P" for X
  proof (intro conjI allI impI)
    show "List_accBm svc r s = (Inr X, s)" by (rule acc[OF x])
    show "OrdersSearchService_List srt svc r s =
              (if Limit r = Some 0 \<or> X = {} then (Inr \<lparr>IDs = [], Total = card X\<rparr>, s)
               else seq (SparseU64IndexReader_Scan srt (CreateTimeIndexReader svc) X True
                           (list_proc (Limit r)) [])
                      (\<lambda>resultIds. ret \<lparr>IDs = resultIds, Total = card X\<rparr>) s)"
      by (rule List_on_accBm[OF acc[OF x]])
  next
    fix resp s' assume run: "OrdersSearchService_List srt svc r s = (Inr resp, s')"
    from List_ids[OF acc[OF x] run] show "Total resp = card X" by (rule conjunct1)
    assume "sort_Slice_ok srt SortId_less"
    with List_ids[OF acc[OF x] run] show "set (IDs resp) \<subseteq> X" by blast
  qed
  have all: "\<forall>X. Mode f = FilterModeNotNull \<and> X = A - P \<or> Mode f = FilterModeNull \<and> X = A \<inter> P \<longrightarrow>
            List_accBm svc r s = (Inr X, s) \<and>
            OrdersSearchService_List srt svc r s =
              (if Limit r = Some 0 \<or> X = {} then (Inr \<lparr>IDs = [], Total = card X\<rparr>, s)
               else seq (SparseU64IndexReader_Scan srt (CreateTimeIndexReader svc) X True
                           (list_proc (Limit r)) [])
                      (\<lambda>resultIds. ret \<lparr>IDs = resultIds, Total = card X\<rparr>) s) \<and>
            (\<forall>resp s'. OrdersSearchService_List srt svc r s = (Inr resp, s') \<longrightarrow>
               Total resp = card X \<and>
               (sort_Slice_ok srt SortId_less \<longrightarrow> set (IDs resp) \<subseteq> X))"
    by (intro allI impI) (rule main)
  show ?thesis
    by (intro conjI impI, rule key, rule all, erule step, erule eq)
qed

lemma demo_rows_keys: "scan_keys {7} True 0xFFFFFFFFFFFFFFFF 0 = [7]"
proof -
  have a: "{k \<in> {7 :: u64}. 0 \<le> k \<and> k \<le> 0xFFFFFFFFFFFFFFFF} = {7}"
    using u64_max by auto
  have p1: "zrange {7} 0 0xFFFFFFFFFFFFFFFF True 100 = [7]"
    unfolding zrange_def Let_def a by simp
  have b: "{k \<in> {7 :: u64}. 0 \<le> k \<and> k \<le> 6} = {}"
    by (auto simp: word_le_nat_alt)
  have p2: "zrange {7} 0 6 True 100 = []"
    unfolding zrange_def Let_def b by simp
  have n: "next_start True 0 (7 :: u64) = 6" by (simp add: next_start_def)
  have r: "scan_keys {7} True 6 0 = []"
    by (subst scan_keys.simps) (simp add: p2)
  show ?thesis
    by (subst scan_keys.simps) (simp add: p1 n r)
qed

lemma demo_rows_Scan:
  "SparseU64IndexReader_Scan insertion_sort (CreateTimeIndexReader NewOrdersSearchService) {2} True
     (list_proc None) [] demo_rows = (Inr [2], demo_rows)"
proof -
  let ?K = "''sparse:orders:create_time''"
  have fv: "\<forall>i. fv_hm demo_rows (MakeIndexKey (SparseU64IndexReader_Index
               (CreateTimeIndexReader NewOrdersSearchService))) i \<noteq> Some Corrupt"
    by (simp add: Service_keys demo_rows_def)
  have hm: "\<forall>k. skbm_hm demo_rows (MakeIndexKey (SparseU64IndexReader_Index
               (CreateTimeIndexReader NewOrdersSearchService))) k \<noteq> Some Corrupt"
    by (simp add: Service_keys demo_rows_def)
  have ks: "[7] = scan_keys (skbm_zs demo_rows ?K) True
              (if True then 0xFFFFFFFFFFFFFFFF else 0) (if True then 0 else 0xFFFFFFFFFFFFFFFF)"
    by (simp add: demo_rows_def demo_rows_keys)
  have i: "{1, 2} \<inter> {2 :: u32} = {2}" by auto
  have b: "scan_batches (skbm_hm demo_rows ?K) (fv_hm demo_rows ?K) {2} True [7] =
             [[\<lparr>SortId_Id = 2, SortId_SortKey = 9\<rparr>]]"
    by (simp add: scan_batches_def bucket_of_def demo_rows_def i sorted_batch_def fv_of_def)
  from Scan_reads[OF insertion_sort_SortId fv hm Service_keys(2)[symmetric] ks,
      of "{2}" "list_proc None" "[]"]
  show ?thesis by (simp add: b)
qed

theorem List_provider_id_filter_witness:
  "ProviderIDFilter demo_not_null = Some \<lparr>Mode = FilterModeNotNull, Value = 0\<rparr> \<and>
   List_accBm NewOrdersSearchService (demo_not_null\<lparr>ProviderIDFilter := None\<rparr>) demo_rows
     = (Inr {1, 2}, demo_rows) \<and>
   parseBitmap (bm_hm demo_rows
       (GetIndexKey (TermIndexReader_Index (ProviderIdIndexReader NewOrdersSearchService))) ''null'')
     = Inr {1} \<and>
   sort_Slice_ok insertion_sort SortId_less \<and>
   List_accBm NewOrdersSearchService demo_not_null demo_rows = (Inr {2}, demo_rows) \<and>
   OrdersSearchService_List insertion_sort NewOrdersSearchService demo_not_null demo_rows =
     (Inr \<lparr>IDs = [2], Total = 1\<rparr>, demo_rows)"
proof -
  have f: "ProviderIDFilter demo_not_null = Some \<lparr>Mode = FilterModeNotNull, Value = 0\<rparr>"
    by (simp add: demo_not_null_def)
  have A: "List_accBm NewOrdersSearchService (demo_not_null\<lparr>ProviderIDFilter := None\<rparr>) demo_rows
             = (Inr {1, 2}, demo_rows)"
    by (simp add: List_accBm_def demo_not_null_def seq_def ret_def TermIndexReader_Get_eq
          NewOrdersSearchService_def GetIndexKey_def demo_rows_def demo_terms_def empty_redis_def
          parseBitmap_def Sprint_int_0)
  have P: "parseBitmap (bm_hm demo_rows
       (GetIndexKey (TermIndexReader_Index (ProviderIdIndexReader NewOrdersSearchService))) ''null'')
     = Inr {1}"
    by (simp add: NewOrdersSearchService_def GetIndexKey_def demo_rows_def demo_terms_def
          empty_redis_def parseBitmap_def)
  have d: "{1, 2} - {1 :: u32} = {2}" by auto
  have l: "Limit demo_not_null = None" by (simp add: demo_not_null_def)
  from List_provider_id_filter[OF f A P, of insertion_sort]
  have "List_accBm NewOrdersSearchService demo_not_null demo_rows = (Inr {2}, demo_rows) \<and>
        OrdersSearchService_List insertion_sort NewOrdersSearchService demo_not_null demo_rows =
          (Inr \<lparr>IDs = [2], Total = 1\<rparr>, demo_rows)"
    by (simp add: d l demo_rows_Scan seq_def ret_def)
  with f A P insertion_sort_SortId show ?thesis by blast
qed

section \<open>The split of a bucket on concrete inputs\<close>

lemma floor_key_Some:
  assumes "k \<in> Z" "k \<le> fv" "\<And>j. j \<in> Z \<Longrightarrow> j \<le> fv \<Longrightarrow> j \<le> k"
  shows "floor_key Z fv = Some k"
proof -
  have "k \<in> {k \<in> Z. k \<le> fv}" using assms by simp
  moreover have "Max {k \<in> Z. k \<le> fv} = k"
    using assms by (intro Max_eqI) auto
  ultimately show ?thesis by (auto simp: floor_key_def)
qed

lemma floor_key_None:
  assumes "\<And>j. j \<in> Z \<Longrightarrow> \<not> j \<le> fv"
  shows "floor_key Z fv = None"
  using assms by (auto simp: floor_key_def)

lemma seq_ok: "m s = (Inr x, s1) \<Longrightarrow> seq m f s = f x s1"
  by (simp add: seq_def)

lemmas sparse_eval = sparse_write_def MSet_zs_list MSet_hm_def empty_redis_def

lemma split_trace_eval:
  "fst split_trace = Inr () \<and>
   skbm_zs (snd split_trace) ''sparse:orders:create_time'' = {20, 30, 10} \<and>
   skbm_hm (snd split_trace) ''sparse:orders:create_time'' 10 = Some (Enc {3, 2}) \<and>
   skbm_hm (snd split_trace) ''sparse:orders:create_time'' 20 = Some (Enc {4, 2}) \<and>
   skbm_hm (snd split_trace) ''sparse:orders:create_time'' 30 = Some (Enc {3})"
proof -
  let ?K = "''sparse:orders:create_time''"
  define t1 where "t1 = sparse_write ?K 1 10 [\<lparr>SortKey = 10, Bitmap = {1}\<rparr>] empty_redis"
  define t2 where "t2 = sparse_write ?K 2 20 [\<lparr>SortKey = 10, Bitmap = {2, 1}\<rparr>] t1"
  define t3 where "t3 = t2\<lparr>skbm_zs := (skbm_zs t2)(?K := MSet_zs [\<lparr>SortKey = 10, Bitmap = {2, 1} - {1}\<rparr>] (skbm_zs t2 ?K)),
                          skbm_hm := (skbm_hm t2)(?K := MSet_hm [\<lparr>SortKey = 10, Bitmap = {2, 1} - {1}\<rparr>] (skbm_hm t2 ?K)),
                          fv_hm := (fv_hm t2)(?K := (fv_hm t2 ?K)(1 := None))\<rparr>"
  define t4 where "t4 = sparse_write ?K 3 30 [\<lparr>SortKey = 10, Bitmap = {3, 2}\<rparr>] t3"
  define t5 where "t5 = sparse_write ?K 4 15
                          [\<lparr>SortKey = 20, Bitmap = {4, 2}\<rparr>, \<lparr>SortKey = 30, Bitmap = {3}\<rparr>] t4"
  have z1: "skbm_zs t1 ?K = {10}" and h1: "skbm_hm t1 ?K 10 = Some (Enc {1})"
    by (simp_all add: t1_def sparse_eval)
  have z2: "skbm_zs t2 ?K = {10}" and h2: "skbm_hm t2 ?K 10 = Some (Enc {2, 1})"
    by (simp_all add: t2_def sparse_eval z1)
  have d: "{2, 1 :: u32} - {1} = {2}" by auto
  have z3: "skbm_zs t3 ?K = {10}" and h3: "skbm_hm t3 ?K 10 = Some (Enc {2})"
    by (simp_all add: t3_def sparse_eval z2 d)
  have z4: "skbm_zs t4 ?K = {10}" and h4: "skbm_hm t4 ?K 10 = Some (Enc {3, 2})"
    by (simp_all add: t4_def sparse_eval z3)
  have f4: "fv_hm t4 ?K 2 = Some (Enc 20)" "fv_hm t4 ?K 3 = Some (Enc 30)"
    by (simp_all add: t4_def t3_def t2_def t1_def sparse_eval)
  have fl10: "floor_key {10} fv = Some 10" if "10 \<le> fv" for fv :: u64
    by (rule floor_key_Some) (use that in auto)
  have le: "(10::u64) \<le> 20" "(10::u64) \<le> 10" "(10::u64) \<le> 30" "(10::u64) \<le> 15" by simp_all
  have thr: "SplitThreshold W2 = 2" by (simp add: W2_def)
  have s1: "SparseU64IndexWriter_Add insertion_sort W2 10 1 empty_redis = (Inr (), t1)"
    unfolding t1_def W2_key[symmetric]
    by (rule Add_no_floor) (rule floor_key_None, simp add: W2_key empty_redis_def)
  have s2: "SparseU64IndexWriter_Add insertion_sort W2 20 2 t1 = (Inr (), t2)"
  proof -
    have fl: "floor_key (skbm_zs t1 (MakeIndexKey (SparseU64IndexWriter_Index W2))) 20 = Some 10"
      by (simp only: W2_key z1 fl10[OF le(1)])
    have hm: "skbm_hm t1 (MakeIndexKey (SparseU64IndexWriter_Index W2)) 10 = Some (Enc {1})"
      by (simp only: W2_key h1)
    have th: "int (card {1 :: u32}) < SplitThreshold W2 mod 2 ^ 64" by (simp add: thr)
    from Add_in_place[OF fl hm th, of insertion_sort 2] show ?thesis
      by (simp add: t2_def W2_key)
  qed
  have s3: "SparseU64IndexWriter_Remove W2 10 1 t2 = (Inr (), t3)"
  proof -
    have fl: "floor_key (skbm_zs t2 (MakeIndexKey (SparseU64IndexWriter_Index W2))) 10 = Some 10"
      by (simp only: W2_key z2 fl10[OF le(2)])
    have hm: "skbm_hm t2 (MakeIndexKey (SparseU64IndexWriter_Index W2)) 10 = Some (Enc {2, 1})"
      by (simp only: W2_key h2)
    from Remove_floor[OF fl hm, of 1] show ?thesis
      by (simp add: t3_def W2_key)
  qed
  have s4: "SparseU64IndexWriter_Add insertion_sort W2 30 3 t3 = (Inr (), t4)"
  proof -
    have fl: "floor_key (skbm_zs t3 (MakeIndexKey (SparseU64IndexWriter_Index W2))) 30 = Some 10"
      by (simp only: W2_key z3 fl10[OF le(3)])
    have hm: "skbm_hm t3 (MakeIndexKey (SparseU64IndexWriter_Index W2)) 10 = Some (Enc {2})"
      by (simp only: W2_key h3)
    have th: "int (card {2 :: u32}) < SplitThreshold W2 mod 2 ^ 64" by (simp add: thr)
    from Add_in_place[OF fl hm th, of insertion_sort 3] show ?thesis
      by (simp add: t4_def W2_key)
  qed
  have sl: "sorted_list_of_set {3, 2 :: u32} = [2, 3]" by simp
  have s5: "SparseU64IndexWriter_Add insertion_sort W2 15 4 t4 = (Inr (), t5)"
  proof -
    have fl: "floor_key (skbm_zs t4 (MakeIndexKey (SparseU64IndexWriter_Index W2))) 15 = Some 10"
      by (simp only: W2_key z4 fl10[OF le(4)])
    have hm: "skbm_hm t4 (MakeIndexKey (SparseU64IndexWriter_Index W2)) 10 = Some (Enc {3, 2})"
      by (simp add: W2_key h4)
    have th: "\<not> int (card {3, 2 :: u32}) < SplitThreshold W2 mod 2 ^ 64"
      by (simp add: thr)
    have pf: "parse_fvs (map (fv_hm t4 (MakeIndexKey (SparseU64IndexWriter_Index W2)))
                (sorted_list_of_set {3, 2})) = Inr [20, 30]"
      by (simp add: W2_key sl f4)
    have so: "insertion_sort SortedId_less
                (map (\<lambda>(i, fv). \<lparr>SortedId_Id = i, SortedId_Score = fv\<rparr>)
                   (zip (sorted_list_of_set {3, 2}) [20, 30])) =
              [\<lparr>SortedId_Id = 2, SortedId_Score = 20\<rparr>, \<lparr>SortedId_Id = 3, SortedId_Score = 30\<rparr>]"
      by (simp add: sl insertion_sort_def SortedId_less_def)
    have ne: "[\<lparr>SortedId_Id = 2 :: u32, SortedId_Score = 20 :: u64\<rparr>,
               \<lparr>SortedId_Id = 3, SortedId_Score = 30\<rparr>] \<noteq> []" by simp
    from Add_split[where srt = insertion_sort and w = W2 and s = t4 and fv = 15 and k = 10
          and bm = "{3, 2}" and fvs = "[20, 30]" and ident = 4
          and sortedIds = "[\<lparr>SortedId_Id = 2, SortedId_Score = 20\<rparr>,
                            \<lparr>SortedId_Id = 3, SortedId_Score = 30\<rparr>]",
          OF fl hm th pf so ne refl refl]
    show ?thesis
      by (simp add: t5_def W2_key word_le_nat_alt)
  qed
  have run: "split_trace = (Inr (), t5)"
    unfolding split_trace_def
    by (simp add: seq_def s1 s2 s3 s4 s5)
  have z5: "skbm_zs t5 ?K = {20, 30, 10}"
    by (simp add: t5_def sparse_eval z4)
  have h5: "skbm_hm t5 ?K 10 = Some (Enc {3, 2})" "skbm_hm t5 ?K 20 = Some (Enc {4, 2})"
    "skbm_hm t5 ?K 30 = Some (Enc {3})"
    by (simp_all add: t5_def sparse_eval h4)
  show ?thesis by (simp add: run z5 h5)
qed

lemma tie_trace_eval:
  "fst tie_trace = Inr () \<and>
   skbm_zs (snd tie_trace) ''sparse:orders:create_time'' = {5} \<and>
   skbm_hm (snd tie_trace) ''sparse:orders:create_time'' 5 = Some (Enc {1}) \<and>
   fv_hm (snd tie_trace) ''sparse:orders:create_time'' 2 = Some (Enc 5) \<and>
   fv_hm (snd tie_trace) ''sparse:orders:create_time'' 3 = Some (Enc 5)"
proof -
  let ?K = "''sparse:orders:create_time''"
  define t1 where "t1 = sparse_write ?K 1 5 [\<lparr>SortKey = 5, Bitmap = {1}\<rparr>] empty_redis"
  define t2 where "t2 = sparse_write ?K 2 5 [\<lparr>SortKey = 5, Bitmap = {2, 1}\<rparr>] t1"
  define t3 where "t3 = sparse_write ?K 3 5
                          [\<lparr>SortKey = 5, Bitmap = {3, 2}\<rparr>, \<lparr>SortKey = 5, Bitmap = {1}\<rparr>] t2"
  have z1: "skbm_zs t1 ?K = {5}" and h1: "skbm_hm t1 ?K 5 = Some (Enc {1})"
    by (simp_all add: t1_def sparse_eval)
  have z2: "skbm_zs t2 ?K = {5}" and h2: "skbm_hm t2 ?K 5 = Some (Enc {2, 1})"
    by (simp_all add: t2_def sparse_eval z1)
  have f2: "fv_hm t2 ?K 1 = Some (Enc 5)" "fv_hm t2 ?K 2 = Some (Enc 5)"
    by (simp_all add: t2_def t1_def sparse_eval)
  have fl5: "floor_key {5} (5 :: u64) = Some 5"
    by (rule floor_key_Some) auto
  have thr: "SplitThreshold W2 = 2" by (simp add: W2_def)
  have s1: "SparseU64IndexWriter_Add insertion_sort W2 5 1 empty_redis = (Inr (), t1)"
    unfolding t1_def W2_key[symmetric]
    by (rule Add_no_floor) (rule floor_key_None, simp add: W2_key empty_redis_def)
  have s2: "SparseU64IndexWriter_Add insertion_sort W2 5 2 t1 = (Inr (), t2)"
  proof -
    have fl: "floor_key (skbm_zs t1 (MakeIndexKey (SparseU64IndexWriter_Index W2))) 5 = Some 5"
      by (simp only: W2_key z1 fl5)
    have hm: "skbm_hm t1 (MakeIndexKey (SparseU64IndexWriter_Index W2)) 5 = Some (Enc {1})"
      by (simp only: W2_key h1)
    have th: "int (card {1 :: u32}) < SplitThreshold W2 mod 2 ^ 64" by (simp add: thr)
    from Add_in_place[OF fl hm th, of insertion_sort 2] show ?thesis
      by (simp add: t2_def W2_key)
  qed
  have sl: "sorted_list_of_set {2, 1 :: u32} = [1, 2]"
    by (simp add: word_le_nat_alt)
  have s3: "SparseU64IndexWriter_Add insertion_sort W2 5 3 t2 = (Inr (), t3)"
  proof -
    have fl: "floor_key (skbm_zs t2 (MakeIndexKey (SparseU64IndexWriter_Index W2))) 5 = Some 5"
      by (simp only: W2_key z2 fl5)
    have hm: "skbm_hm t2 (MakeIndexKey (SparseU64IndexWriter_Index W2)) 5 = Some (Enc {2, 1})"
      by (simp only: W2_key h2)
    have th: "\<not> int (card {2, 1 :: u32}) < SplitThreshold W2 mod 2 ^ 64"
      by (simp add: thr)
    have pf: "parse_fvs (map (fv_hm t2 (MakeIndexKey (SparseU64IndexWriter_Index W2)))
                (sorted_list_of_set {2, 1})) = Inr [5, 5]"
      by (simp add: W2_key sl f2)
    have so: "insertion_sort SortedId_less
                (map (\<lambda>(i, fv). \<lparr>SortedId_Id = i, SortedId_Score = fv\<rparr>)
                   (zip (sorted_list_of_set {2, 1}) [5, 5])) =
              [\<lparr>SortedId_Id = 1, SortedId_Score = 5\<rparr>, \<lparr>SortedId_Id = 2, SortedId_Score = 5\<rparr>]"
      by (simp add: sl insertion_sort_def SortedId_less_def)
    have ne: "[\<lparr>SortedId_Id = 1 :: u32, SortedId_Score = 5 :: u64\<rparr>,
               \<lparr>SortedId_Id = 2, SortedId_Score = 5\<rparr>] \<noteq> []" by simp
    from Add_split[where srt = insertion_sort and w = W2 and s = t2 and fv = 5 and k = 5
          and bm = "{2, 1}" and fvs = "[5, 5]" and ident = 3
          and sortedIds = "[\<lparr>SortedId_Id = 1, SortedId_Score = 5\<rparr>,
                            \<lparr>SortedId_Id = 2, SortedId_Score = 5\<rparr>]",
          OF fl hm th pf so ne refl refl]
    show ?thesis
      by (simp add: t3_def W2_key)
  qed
  have run: "tie_trace = (Inr (), t3)"
    unfolding tie_trace_def by (simp add: seq_def s1 s2 s3)
  have z3: "skbm_zs t3 ?K = {5}"
    by (simp add: t3_def sparse_eval z2)
  have h3: "skbm_hm t3 ?K 5 = Some (Enc {1})"
    by (simp add: t3_def sparse_eval)
  have f3: "fv_hm t3 ?K 2 = Some (Enc 5)" "fv_hm t3 ?K 3 = Some (Enc 5)"
    by (simp_all add: t3_def sparse_eval f2)
  show ?thesis by (simp add: run z3 h3 f3)
qed


text \<open>
  Claim C2 (id exclusivity), at a failing input. On an empty index and with a split threshold
  of two, the calls Add(10, 1), Add(20, 2), Remove(10, 1), Add(30, 3), Add(15, 4) all succeed.
  The last one splits the bucket keyed 10, which holds ids 2 and 3 with forward values 20
  and 30, into buckets keyed 20 and 30, and the bucket keyed 10 stays as it was: afterwards
  id 2 is a member of the bucket keyed 10 and of the bucket keyed 20, both listed in the
  sorted set.
\<close>

theorem split_leaves_id_in_two_buckets:
  "fst split_trace = Inr () \<and>
   10 \<in> skbm_zs (snd split_trace) ''sparse:orders:create_time'' \<and>
   20 \<in> skbm_zs (snd split_trace) ''sparse:orders:create_time'' \<and>
   2 \<in> bucket_of (skbm_hm (snd split_trace) ''sparse:orders:create_time'') 10 \<and>
   2 \<in> bucket_of (skbm_hm (snd split_trace) ''sparse:orders:create_time'') 20"
  using split_trace_eval by (simp add: bucket_of_def)

text \<open>
  Claim C3 (the split path), at two failing inputs, the split threshold being two. Adding
  rows 1, 2, 3 of create_time 5 to an empty index splits the bucket \<open>{1, 2}\<close> into \<open>L = [1]\<close>
  and \<open>U = [2]\<close>, both keyed 5: one bucket is left, it holds id 1 only, and ids 2 and 3 have
  forward values but are in no bucket. In the run of claim C2 the last call adds id 4 with
  value 15 below \<open>L[0].fv = 20\<close>: the floor bucket of 15 is then the bucket keyed 10, and
  id 4 is not in it but in the bucket keyed 20.
\<close>

theorem split_misses_floor_bucket:
  "fst tie_trace = Inr () \<and>
   skbm_zs (snd tie_trace) ''sparse:orders:create_time'' = {5} \<and>
   bucket_of (skbm_hm (snd tie_trace) ''sparse:orders:create_time'') 5 = {1} \<and>
   fv_hm (snd tie_trace) ''sparse:orders:create_time'' 2 = Some (Enc 5) \<and>
   fv_hm (snd tie_trace) ''sparse:orders:create_time'' 3 = Some (Enc 5) \<and>
   fst split_trace = Inr () \<and>
   floor_key (skbm_zs (snd split_trace) ''sparse:orders:create_time'') 15 = Some 10 \<and>
   4 \<notin> bucket_of (skbm_hm (snd split_trace) ''sparse:orders:create_time'') 10 \<and>
   4 \<in> bucket_of (skbm_hm (snd split_trace) ''sparse:orders:create_time'') 20"
proof -
  have "floor_key {20, 30, 10} (15 :: u64) = Some 10"
    by (rule floor_key_Some) (auto simp: word_le_nat_alt)
  moreover have "(4 :: u32) \<notin> {3, 2}" by simp
  ultimately show ?thesis
    using tie_trace_eval split_trace_eval by (simp add: bucket_of_def)
qed

section \<open>Claim C8: the split at ties\<close>














section \<open>A hundred and one inserts in descending create_time\<close>

lemma unat_desc_ct: "i \<le> 100 \<Longrightarrow> unat (desc_ct i) = 100 - i"
  unfolding desc_ct_def unat_of_nat by simp

lemma unat_desc_id: "i \<le> 100 \<Longrightarrow> unat (desc_id i) = Suc i"
  unfolding desc_id_def unat_of_nat by simp

lemma desc_ct_eq: "i \<le> 100 \<Longrightarrow> j \<le> 100 \<Longrightarrow> desc_ct i = desc_ct j \<longleftrightarrow> i = j"
proof
  assume a: "i \<le> 100" "j \<le> 100" "desc_ct i = desc_ct j"
  then have "unat (desc_ct i) = unat (desc_ct j)" by simp
  then show "i = j" using a(1,2) by (simp add: unat_desc_ct)
qed simp

lemma desc_id_eq: "i \<le> 100 \<Longrightarrow> j \<le> 100 \<Longrightarrow> desc_id i = desc_id j \<longleftrightarrow> i = j"
proof
  assume a: "i \<le> 100" "j \<le> 100" "desc_id i = desc_id j"
  then have "unat (desc_id i) = unat (desc_id j)" by simp
  then show "i = j" using a(1,2) by (simp add: unat_desc_id)
qed simp

lemma desc_ct_le: "i \<le> 100 \<Longrightarrow> j \<le> 100 \<Longrightarrow> desc_ct i \<le> desc_ct j \<longleftrightarrow> j \<le> i"
  by (auto simp: word_le_nat_alt unat_desc_ct)

lemma TermIndexWriter_Add_eq:
  "TermIndexWriter_Add w fv ident s =
     (case parseBitmap (bm_hm s (GetIndexKey (TermIndexWriter_Index w)) (MakeValueKey fv)) of
        Inl e \<Rightarrow> (Inl e, s)
      | Inr bm \<Rightarrow> (Inr (), s\<lparr>bm_hm := (bm_hm s)(GetIndexKey (TermIndexWriter_Index w) :=
                       (bm_hm s (GetIndexKey (TermIndexWriter_Index w)))(MakeValueKey fv \<mapsto>
                          Enc (insert ident bm)))\<rparr>))"
  by (simp add: TermIndexWriter_Add_def Let_def seq_def RedisBmStore_Get_eq RedisBmStore_Set_eq
      split: sum.splits)

lemma Sprint_int_1: "Sprint_int 1 = ''1''"
  by (simp add: Sprint_int_def)

lemma Start_keys:
  "GetIndexKey (TermIndexWriter_Index (AllIndexWriter Start_consumer)) = ''term:orders:__all''"
  "GetIndexKey (TermIndexWriter_Index (OrderStatusIndexWriter Start_consumer)) = ''term:orders:order_status''"
  "GetIndexKey (TermIndexWriter_Index (ProductIdIndexWriter Start_consumer)) = ''term:orders:product_id''"
  "GetIndexKey (TermIndexWriter_Index (ProviderIdIndexWriter Start_consumer)) = ''term:orders:provider_id''"
  "MakeIndexKey (SparseU64IndexWriter_Index (CreateTimeIndexWriter Start_consumer)) = ''sparse:orders:create_time''"
  by (simp_all add: Start_consumer_def NewTermIndexWriter_def GetIndexKey_def MakeIndexKey_def)

lemma image_upt_Suc: "f ` {0..<Suc n} = insert (f n) (f ` {0..<n})"
proof -
  have "{0..<Suc n} = insert n {0..<n}" by auto
  then show ?thesis by (simp only: image_insert)
qed

lemma desc_floor_None:
  assumes "n < 101"
  shows "floor_key (desc_ct ` {0..<n}) (desc_ct n) = None"
proof (rule floor_key_None)
  fix j :: u64 assume "j \<in> desc_ct ` {0..<n}"
  then obtain m where m: "j = desc_ct m" "m < n" by auto
  then show "\<not> j \<le> desc_ct n"
    using assms by (simp add: desc_ct_le)
qed

lemma desc_step:
  assumes J: "desc_inv n s" and n: "n < 101"
  shows "\<exists>s1. onInsert insertion_sort Start_consumer (desc_order n) s = (Inr (), s1) \<and> desc_inv (Suc n) s1"
proof -
  let ?id = "desc_id n"
  let ?ct = "desc_ct n"
  let ?ids = "desc_id ` {0..<n}"
  let ?KS = "''sparse:orders:create_time''"
  from J have a: "parseBitmap (bm_hm s ''term:orders:__all'' ''0'') = Inr ?ids"
    and b: "parseBitmap (bm_hm s ''term:orders:order_status'' ''1'') = Inr ?ids"
    and c: "parseBitmap (bm_hm s ''term:orders:product_id'' ''1'') = Inr ?ids"
    and d: "parseBitmap (bm_hm s ''term:orders:provider_id'' ''null'') = Inr ?ids"
    and z: "skbm_zs s ?KS = desc_ct ` {0..<n}"
    and h: "\<forall>i<n. skbm_hm s ?KS (desc_ct i) = Some (Enc {desc_id i})"
    and f: "\<forall>i<n. fv_hm s ?KS (desc_id i) = Some (Enc (desc_ct i))"
    and hc: "\<forall>k. skbm_hm s ?KS k \<noteq> Some Corrupt"
    and fc: "\<forall>i. fv_hm s ?KS i \<noteq> Some Corrupt"
    by (simp_all add: desc_inv_def)
  define s4 where "s4 = s\<lparr>bm_hm := (bm_hm s)
      (''term:orders:__all'' := (bm_hm s ''term:orders:__all'')(''0'' \<mapsto> Enc (insert ?id ?ids)),
       ''term:orders:order_status'' := (bm_hm s ''term:orders:order_status'')(''1'' \<mapsto> Enc (insert ?id ?ids)),
       ''term:orders:product_id'' := (bm_hm s ''term:orders:product_id'')(''1'' \<mapsto> Enc (insert ?id ?ids)),
       ''term:orders:provider_id'' := (bm_hm s ''term:orders:provider_id'')(''null'' \<mapsto> Enc (insert ?id ?ids)))\<rparr>"
  define s5 where "s5 = sparse_write ?KS ?id ?ct [\<lparr>SortKey = ?ct, Bitmap = {?id}\<rparr>] s4"
  have fl: "floor_key (skbm_zs s4 (MakeIndexKey (SparseU64IndexWriter_Index (CreateTimeIndexWriter Start_consumer)))) ?ct = None"
    by (simp add: Start_keys s4_def z desc_floor_None[OF n])
  have sp: "SparseU64IndexWriter_Add insertion_sort (CreateTimeIndexWriter Start_consumer) ?ct ?id s4 = (Inr (), s5)"
    unfolding s5_def Start_keys(5)[symmetric] by (rule Add_no_floor[OF fl])
  have run: "onInsert insertion_sort Start_consumer (desc_order n) s = (Inr (), s5)"
    by (simp add: onInsert_def desc_order_def seq_def TermIndexWriter_Add_eq Start_keys
          Sprint_int_0 Sprint_int_1 a b c d s4_def[symmetric] sp)
  have zs5: "skbm_zs s5 ?KS = desc_ct ` {0..<Suc n}"
    by (simp add: s5_def s4_def sparse_write_def MSet_zs_list z image_upt_Suc)
  have hm5: "skbm_hm s5 ?KS = (skbm_hm s ?KS)(?ct \<mapsto> Enc {?id})"
    by (simp add: s5_def s4_def sparse_write_def MSet_hm_def)
  have fv5: "fv_hm s5 ?KS = (fv_hm s ?KS)(?id \<mapsto> Enc ?ct)"
    by (simp add: s5_def s4_def sparse_write_def)
  have h5: "\<forall>i<Suc n. skbm_hm s5 ?KS (desc_ct i) = Some (Enc {desc_id i})"
  proof (intro allI impI)
    fix i assume i: "i < Suc n"
    show "skbm_hm s5 ?KS (desc_ct i) = Some (Enc {desc_id i})"
    proof (cases "i = n")
      case True
      then show ?thesis by (simp add: hm5)
    next
      case False
      then have "i < n" using i by simp
      moreover have "desc_ct i \<noteq> desc_ct n"
        using \<open>i < n\<close> n by (simp add: desc_ct_eq)
      ultimately show ?thesis using h by (simp add: hm5)
    qed
  qed
  have f5: "\<forall>i<Suc n. fv_hm s5 ?KS (desc_id i) = Some (Enc (desc_ct i))"
  proof (intro allI impI)
    fix i assume i: "i < Suc n"
    show "fv_hm s5 ?KS (desc_id i) = Some (Enc (desc_ct i))"
    proof (cases "i = n")
      case True
      then show ?thesis by (simp add: fv5)
    next
      case False
      then have "i < n" using i by simp
      moreover have "desc_id i \<noteq> desc_id n"
        using \<open>i < n\<close> n by (simp add: desc_id_eq)
      ultimately show ?thesis using f by (simp add: fv5)
    qed
  qed
  have t5: "bm_hm s5 = bm_hm s4" by (simp add: s5_def sparse_write_def)
  have c5: "\<forall>k. skbm_hm s5 ?KS k \<noteq> Some Corrupt" "\<forall>i. fv_hm s5 ?KS i \<noteq> Some Corrupt"
    using hc fc by (simp_all add: hm5 fv5)
  have J5: "desc_inv (Suc n) s5"
    unfolding desc_inv_def
    using zs5 h5 f5 c5
    by (simp add: t5 s4_def parseBitmap_def image_upt_Suc)
  show ?thesis using run J5 by blast
qed

lemma ConsumeClaim_append:
  "ConsumeClaim srt c (ms @ ms') s =
     (case ConsumeClaim srt c ms s of
        (Inl e, s1) \<Rightarrow> (Inl e, s1)
      | (Inr u, s1) \<Rightarrow> ConsumeClaim srt c ms' s1)"
  by (induction ms arbitrary: s) (auto simp: seq_def ret_def split: prod.splits sum.splits)

lemma desc_inv_0: "desc_inv 0 empty_redis"
  by (simp add: desc_inv_def empty_redis_def parseBitmap_def)

lemma desc_run:
  "n \<le> 101 \<Longrightarrow>
   \<exists>s. ConsumeClaim insertion_sort Start_consumer (map desc_msg [0..<n]) empty_redis = (Inr (), s) \<and>
       desc_inv n s"
proof (induction n)
  case 0
  then show ?case by (simp add: ret_def desc_inv_0)
next
  case (Suc n)
  then obtain s where s: "ConsumeClaim insertion_sort Start_consumer (map desc_msg [0..<n]) empty_redis = (Inr (), s)"
    "desc_inv n s" by auto
  from Suc.prems have "n < 101" by simp
  from desc_step[OF s(2) this] obtain s1 where
    s1: "onInsert insertion_sort Start_consumer (desc_order n) s = (Inr (), s1)" "desc_inv (Suc n) s1"
    by blast
  have "consume_message insertion_sort Start_consumer (desc_msg n) s = (Inr (), s1)"
    by (simp add: consume_message_def desc_msg_def s1(1))
  then have "ConsumeClaim insertion_sort Start_consumer (map desc_msg [0..<Suc n]) empty_redis = (Inr (), s1)"
    by (simp add: ConsumeClaim_append s(1) seq_def ret_def)
  with s1(2) show ?case by blast
qed

lemma desc_state_inv:
  "ConsumeClaim insertion_sort Start_consumer (map desc_msg [0..<101]) empty_redis = (Inr (), desc_state)"
  "desc_inv 101 desc_state"
  using desc_run[of 101] by (auto simp: desc_state_def)

lemma desc_sorted_keys:
  "sorted_list_of_set (desc_ct ` {0..<101}) = rev (map desc_ct [0..<101])"
proof -
  let ?xs = "rev (map desc_ct [0..<101])"
  have "sorted_wrt (<) [0..<101::nat]" by (simp add: sorted_wrt_upt)
  then have "sorted_wrt (\<lambda>i j. desc_ct j \<le> desc_ct i) [0..<101]"
    by (rule sorted_wrt_mono_rel[rotated]) (simp add: desc_ct_le)
  then have s: "sorted ?xs" by (simp add: sorted_wrt_rev sorted_wrt_map)
  have "inj_on desc_ct (set [0..<101])"
    by (rule inj_onI) (simp add: desc_ct_eq)
  then have d: "distinct ?xs" by (simp add: distinct_map)
  have "set ?xs = desc_ct ` {0..<101}" by simp
  with sorted_list_of_set.idem_if_sorted_distinct[OF s d] show ?thesis by simp
qed

lemma desc_scan_keys:
  "scan_keys (desc_ct ` {0..<101}) True 0xFFFFFFFFFFFFFFFF 0 = map desc_ct [0..<100]"
proof -
  let ?Z = "desc_ct ` {0..<101}"
  have A: "{k \<in> ?Z. 0 \<le> k \<and> k \<le> 0xFFFFFFFFFFFFFFFF} = ?Z"
    using u64_max by auto
  have "take 100 (map desc_ct [0..<101]) = map desc_ct [0..<100]"
    by (simp add: take_map)
  then have page: "zrange ?Z 0 0xFFFFFFFFFFFFFFFF True 100 = map desc_ct [0..<100]"
    unfolding zrange_def Let_def A desc_sorted_keys by simp
  have "[0..<100] = [0..<99] @ [99::nat]" by (simp add: upt_rec)
  then have l: "last (map desc_ct [0..<100]) = desc_ct 99" by simp
  have n: "next_start True 0 (desc_ct 99) = 0"
    by (simp add: next_start_def desc_ct_def)
  have ne: "map desc_ct [0..<100] \<noteq> []" by simp
  have r: "scan_keys ?Z True 0 0 = []"
    by (subst scan_keys.simps) simp
  show ?thesis
    by (subst scan_keys.simps) (simp add: page l n r ne del: upt_Suc)
qed

lemma deliver_singletons:
  "deliver (list_proc None) acc (map (\<lambda>i. [b i]) js) = (True, acc @ map (\<lambda>i. SortId_Id (b i)) js)"
  by (induction js arbitrary: acc) simp_all

lemma sorted_batch_single:
  "sorted_batch F {x} = [\<lparr>SortId_Id = x, SortId_SortKey = fv_of F x\<rparr>]"
  by (simp add: sorted_batch_def)

lemma desc_batches:
  assumes "desc_inv 101 s"
  shows "scan_batches (skbm_hm s ''sparse:orders:create_time'') (fv_hm s ''sparse:orders:create_time'')
           (desc_id ` {0..<101}) True (map desc_ct [0..<100]) =
         map (\<lambda>i. [\<lparr>SortId_Id = desc_id i, SortId_SortKey = desc_ct i\<rparr>]) [0..<100]"
proof -
  let ?H = "skbm_hm s ''sparse:orders:create_time''"
  let ?F = "fv_hm s ''sparse:orders:create_time''"
  let ?U = "desc_id ` {0..<101}"
  from assms have h: "\<forall>i<101. ?H (desc_ct i) = Some (Enc {desc_id i})"
    and f: "\<forall>i<101. ?F (desc_id i) = Some (Enc (desc_ct i))"
    by (simp_all add: desc_inv_def)
  have b: "bucket_of ?H (desc_ct i) \<inter> ?U = {desc_id i}" if "i < 100" for i
    using that h by (auto simp: bucket_of_def)
  have m1: "map (\<lambda>k. bucket_of ?H k \<inter> ?U) (map desc_ct [0..<100]) = map (\<lambda>i. {desc_id i}) [0..<100]"
    by (simp add: b)
  have m2: "filter (\<lambda>bm. bm \<noteq> {}) (map (\<lambda>i. {desc_id i}) [0..<100]) = map (\<lambda>i. {desc_id i}) [0..<100]"
    by (simp add: filter_map comp_def)
  have v: "fv_of ?F (desc_id i) = desc_ct i" if "i < 100" for i
    using that f by (simp add: fv_of_def)
  show ?thesis
    unfolding scan_batches_def m1 m2
    by (simp add: sorted_batch_single v)
qed

lemma desc_card: "card (desc_id ` {0..<101}) = 101"
proof -
  have "inj_on desc_id {0..<101}" by (rule inj_onI) (simp add: desc_id_eq)
  then show ?thesis by (simp add: card_image)
qed

lemma desc_accBm:
  assumes "desc_inv 101 s"
  shows "List_accBm NewOrdersSearchService all_rows s = (Inr (desc_id ` {0..<101}), s)"
proof -
  from assms have "parseBitmap (bm_hm s ''term:orders:__all'' ''0'') = Inr (desc_id ` {0..<101})"
    by (simp add: desc_inv_def)
  then show ?thesis
    by (simp add: List_accBm_def all_rows_def seq_def ret_def TermIndexReader_Get_eq Service_keys
          Sprint_int_0)
qed

lemma desc_Scan:
  "SparseU64IndexReader_Scan insertion_sort (CreateTimeIndexReader NewOrdersSearchService)
     (desc_id ` {0..<101}) True (list_proc None) [] desc_state =
   (Inr (map desc_id [0..<100]), desc_state)"
proof -
  let ?K = "''sparse:orders:create_time''"
  note J = desc_state_inv(2)
  from J have z: "skbm_zs desc_state ?K = desc_ct ` {0..<101}"
    and hc: "\<forall>k. skbm_hm desc_state ?K k \<noteq> Some Corrupt"
    and fc: "\<forall>i. fv_hm desc_state ?K i \<noteq> Some Corrupt"
    by (simp_all add: desc_inv_def)
  have fc': "\<forall>i. fv_hm desc_state (MakeIndexKey (SparseU64IndexReader_Index
               (CreateTimeIndexReader NewOrdersSearchService))) i \<noteq> Some Corrupt"
    and hc': "\<forall>k. skbm_hm desc_state (MakeIndexKey (SparseU64IndexReader_Index
               (CreateTimeIndexReader NewOrdersSearchService))) k \<noteq> Some Corrupt"
    using hc fc by (simp_all add: Service_keys)
  have ks: "map desc_ct [0..<100] = scan_keys (skbm_zs desc_state ?K) True
              (if True then 0xFFFFFFFFFFFFFFFF else 0) (if True then 0 else 0xFFFFFFFFFFFFFFFF)"
    by (simp add: z desc_scan_keys)
  from Scan_reads[OF insertion_sort_SortId fc' hc' Service_keys(2)[symmetric] ks,
      of "desc_id ` {0..<101}" "list_proc None" "[]"]
  show ?thesis
    by (simp add: desc_batches[OF J] deliver_singletons)
qed

lemma desc_List:
  "OrdersSearchService_List insertion_sort NewOrdersSearchService all_rows desc_state =
     (Inr desc_response, desc_state)"
  by (simp add: OrdersSearchService_List_def seq_def ret_def desc_accBm[OF desc_state_inv(2)] desc_card
        all_rows_def[THEN arg_cong, of Limit] desc_Scan desc_response_def)

lemma desc_last_row_missing: "desc_id 100 \<notin> set (map desc_id [0..<100])"
proof
  assume "desc_id 100 \<in> set (map desc_id [0..<100])"
  then obtain i where "i < 100" "desc_id 100 = desc_id i" by auto
  then show False by (simp add: desc_id_eq)
qed

text \<open>
  Claim C4 (what \<open>Scan\<close> delivers), at a failing input. The server holds what the consumer
  leaves after the 101 inserts in descending create_time: 101 buckets of one id each, keyed
  100 down to 0. A reverse scan whose base bitmap holds all 101 ids, with a callback that
  never returns false, returns without error after the callback has seen ids 1 to 100. The
  bucket keyed 0 is a member of the sorted set and its intersection with the base bitmap is
  \<open>{101}\<close>, which is not empty, and id 101 is not delivered: the first page ends at key 1,
  the cursor becomes 0, the end of the range, and the loop \<open>for start != end\<close> stops.
\<close>

theorem Scan_stops_before_last_bucket:
  "SparseU64IndexReader_Scan insertion_sort (CreateTimeIndexReader NewOrdersSearchService)
     (desc_id ` {0..<101}) True (list_proc None) [] desc_state =
     (Inr (map desc_id [0..<100]), desc_state) \<and>
   0 \<in> skbm_zs desc_state ''sparse:orders:create_time'' \<and>
   bucket_of (skbm_hm desc_state ''sparse:orders:create_time'') 0 \<inter> desc_id ` {0..<101} = {desc_id 100} \<and>
   desc_id 100 = 101 \<and>
   desc_id 100 \<notin> set (map desc_id [0..<100])"
proof -
  let ?K = "''sparse:orders:create_time''"
  note J = desc_state_inv(2)
  have c0: "desc_ct 100 = 0" by (simp add: desc_ct_def)
  from J have "skbm_zs desc_state ?K = desc_ct ` {0..<101}" by (simp add: desc_inv_def)
  moreover have "desc_ct 100 \<in> desc_ct ` {0..<101}" by (rule imageI) simp
  ultimately have z: "0 \<in> skbm_zs desc_state ?K" by (simp only: c0)
  from J have "skbm_hm desc_state ?K (desc_ct 100) = Some (Enc {desc_id 100})"
    by (simp add: desc_inv_def)
  then have h: "bucket_of (skbm_hm desc_state ?K) 0 = {desc_id 100}"
    by (simp add: bucket_of_def c0)
  have "desc_id 100 \<in> desc_id ` {0..<101}" by (rule imageI) simp
  with h have b: "bucket_of (skbm_hm desc_state ?K) 0 \<inter> desc_id ` {0..<101} = {desc_id 100}"
    by simp
  have i: "desc_id 100 = 101" by (simp add: desc_id_def)
  from desc_Scan z b i desc_last_row_missing show ?thesis by (intro conjI)
qed

text \<open>
  Claim C1 (ingest and query agree), at a failing input. The consumer built by \<open>Start\<close> applies
  101 create events to an empty server without error: row \<open>i + 1\<close> has create_time
  \<open>100 - i\<close>, so row 101 has create_time 0. For the request without filters and without
  limit, \<open>List\<close> answers a total of 101 and the ids 1 to 100 in this order; the 101 live rows
  sorted by create_time descending are the ids 1 to 101. Row 101 is left out: the reverse
  scan reads the hundred buckets keyed 100 down to 1 as its first page, moves its cursor to
  0, which is the end of the range, and its loop \<open>for start != end\<close> stops before the bucket
  keyed 0 is read.
\<close>

theorem descending_inserts_lose_last_row:
  "fst (ConsumeClaim insertion_sort Start_consumer (map desc_msg [0..<101]) empty_redis) = Inr () \<and>
   fst (OrdersSearchService_List insertion_sort NewOrdersSearchService all_rows desc_state) =
     Inr desc_response \<and>
   Total desc_response = 101 \<and>
   IDs desc_response = map desc_id [0..<100] \<and>
   IDs desc_response \<noteq> map desc_id [0..<101] \<and>
   ID (desc_order 100) = 101 \<and> CreateTime (desc_order 100) = 0"
proof -
  have "length (IDs desc_response) \<noteq> length (map desc_id [0..<101])"
    by (simp add: desc_response_def)
  then have "IDs desc_response \<noteq> map desc_id [0..<101]" by (metis)
  then show ?thesis
    by (simp add: desc_state_inv(1) desc_List)
       (simp add: desc_response_def desc_order_def desc_id_def desc_ct_def)
qed

text \<open>
  Claim C10 (without a limit every id of the intersection is returned), at a failing input.
  On the same state the request has no limit, the intersection of the filters is the set of
  all 101 row ids, and \<open>List\<close> returns 100 ids with a total of 101: the id of row 101 is in
  the intersection and not in the list.
\<close>

theorem List_without_limit_misses_an_id:
  "Limit all_rows = None \<and>
   fst (List_accBm NewOrdersSearchService all_rows desc_state) = Inr (desc_id ` {0..<101}) \<and>
   card (desc_id ` {0..<101}) = 101 \<and>
   fst (OrdersSearchService_List insertion_sort NewOrdersSearchService all_rows desc_state) =
     Inr desc_response \<and>
   length (IDs desc_response) = 100 \<and> Total desc_response = 101 \<and>
   desc_id 100 \<in> desc_id ` {0..<101} \<and> desc_id 100 \<notin> set (IDs desc_response)"
proof -
  have "Limit all_rows = None" by (simp add: all_rows_def)
  moreover have "length (IDs desc_response) = 100" "Total desc_response = 101"
    by (simp_all add: desc_response_def)
  moreover have "desc_id 100 \<notin> set (IDs desc_response)"
    using desc_last_row_missing by (simp add: desc_response_def)
  moreover have "desc_id 100 \<in> desc_id ` {0..<101}" by simp
  ultimately show ?thesis
    by (simp add: desc_accBm[OF desc_state_inv(2)] desc_card desc_List)
qed

end
